theory Spec2Isabelle
  imports Main "HOL-Library.Word"
begin

unbundle bit_operations_syntax

section \<open>Data model of \<open>ulz.hpp\<close>\<close>

text \<open>
  The class \<open>ULZ\<close> works on raw byte pointers. A pointer is modelled by the memory it
  points into, a total store from offsets (relative to the pointer) to bytes, and every
  \<open>int\<close> of the source is a HOL \<open>int\<close>. The offsets and lengths that the source computes on
  its way are bounded by the lengths of the buffers, so for lengths that are \<open>int\<close>s they stay
  in the range of a 32-bit \<open>int\<close>. The one value that can leave it is the result of the two
  encoders, the pointer difference \<open>op-out\<close> converted to \<open>int\<close>: that conversion is \<open>to_int\<close>
  below. The fixed-width types \<open>U8\<close>, \<open>U16\<close> and \<open>U32\<close> are words; multi-byte loads and
  stores are little-endian.
\<close>

type_synonym u8 = "8 word"
type_synonym u16 = "16 word"
type_synonym u32 = "32 word"
type_synonym mem = "int \<Rightarrow> u8"

definition EXCESS :: int where
  "EXCESS = 16"

definition WINDOW_BITS :: nat where
  "WINDOW_BITS = 17"

definition WINDOW_SIZE :: int where
  "WINDOW_SIZE = push_bit WINDOW_BITS 1"

definition WINDOW_MASK :: int where
  "WINDOW_MASK = WINDOW_SIZE - 1"

definition MIN_MATCH :: int where
  "MIN_MATCH = 4"

definition HASH_BITS :: nat where
  "HASH_BITS = 19"

definition HASH_SIZE :: nat where
  "HASH_SIZE = push_bit HASH_BITS 1"

definition NIL :: int where
  "NIL = - 1"

subsection \<open>Utilities\<close>

text \<open>
  \<open>return op-out\<close> in a function that returns \<open>int\<close>: the conversion of a pointer difference
  to a 32-bit \<open>int\<close> keeps the low 32 bits and reads them as a signed number.
\<close>

definition to_int :: "int \<Rightarrow> int" where
  "to_int x = (x + 2147483648) mod 4294967296 - 2147483648"

definition UnalignedLoad16 :: "mem \<Rightarrow> int \<Rightarrow> u16" where
  "UnalignedLoad16 m a = word_rcat [m (a + 1), m a]"

definition UnalignedLoad32 :: "mem \<Rightarrow> int \<Rightarrow> u32" where
  "UnalignedLoad32 m a = word_rcat [m (a + 3), m (a + 2), m (a + 1), m a]"

definition UnalignedStore16 :: "mem \<Rightarrow> int \<Rightarrow> u16 \<Rightarrow> mem" where
  "UnalignedStore16 m a x = (m(a := ucast x))(a + 1 := ucast (drop_bit 8 x))"

text \<open>\<open>UnalignedCopy64(d, s)\<close> reads eight bytes at \<open>s\<close> and then writes them at \<open>d\<close>.\<close>

definition UnalignedCopy64 :: "mem \<Rightarrow> int \<Rightarrow> mem \<Rightarrow> int \<Rightarrow> mem" where
  "UnalignedCopy64 dm d sm s = (\<lambda>a. if d \<le> a \<and> a < d + 8 then sm (s + (a - d)) else dm a)"

text \<open>
  \<open>WildCopy\<close> as the encoders call it: from the input buffer into the output buffer,
  two buffers that do not overlap. The loop \<open>for (i=8; i<n; i+=8)\<close> is \<open>WildCopy_from\<close>.
\<close>

function WildCopy_from :: "mem \<Rightarrow> int \<Rightarrow> mem \<Rightarrow> int \<Rightarrow> int \<Rightarrow> int \<Rightarrow> mem" where
  "WildCopy_from dm d sm s n i =
     (if i < n then WildCopy_from (UnalignedCopy64 dm (d + i) sm (s + i)) d sm s n (i + 8)
      else dm)"
  by pat_completeness auto
termination
  by (relation "measure (\<lambda>(dm, d, sm, s, n, i). nat (n - i))") auto

definition WildCopy :: "mem \<Rightarrow> int \<Rightarrow> mem \<Rightarrow> int \<Rightarrow> int \<Rightarrow> mem" where
  "WildCopy dm d sm s n = WildCopy_from (UnalignedCopy64 dm d sm s) d sm s n 8"

definition Hash32 :: "mem \<Rightarrow> int \<Rightarrow> nat" where
  "Hash32 m a = unat (drop_bit (32 - HASH_BITS) (UnalignedLoad32 m a * 0x9E3779B9))"

text \<open>
  \<open>EncodeMod(p, x)\<close> writes through the pointer \<open>p\<close> and advances it: the model returns
  the memory and the new pointer.
\<close>

function EncodeMod :: "mem \<Rightarrow> int \<Rightarrow> u32 \<Rightarrow> mem \<times> int" where
  "EncodeMod m p x =
     (if 128 \<le> x
      then EncodeMod (m(p := ucast (128 + ((x - 128) AND 127)))) (p + 1) (drop_bit 7 (x - 128))
      else (m(p := ucast x), p + 1))"
  by pat_completeness auto
termination
proof (relation "measure (\<lambda>(m, p, x). unat x)")
  show "wf (measure (\<lambda>(m, p, x). unat x))"
    by simp
next
  fix m :: mem and p :: int and x :: u32
  assume big: "128 \<le> x"
  have "unat (x - 128) = unat x - 128"
    using big by (simp add: unat_sub)
  moreover have "128 \<le> unat x"
    using big by (simp add: word_le_nat_alt)
  moreover have "unat (drop_bit 7 (x - 128)) \<le> unat (x - 128)"
    by (simp add: drop_bit_eq_div unat_div)
  ultimately show "((m(p := ucast (128 + ((x - 128) AND 127))), p + 1, drop_bit 7 (x - 128)), (m, p, x))
      \<in> measure (\<lambda>(m, p, x). unat x)"
    by simp
qed

subsection \<open>The decoder's checked memory accesses\<close>

text \<open>
  \<open>Decompress\<close> parses bytes it has no reason to trust, and two claims are about the
  offsets it touches. Its two buffers therefore carry their allocated sizes (\<open>icap\<close> bytes
  behind \<open>in\<close>, \<open>ocap\<close> bytes behind \<open>out\<close>), and every access of the decoder is checked
  against them: an access outside the allocation is undefined behaviour in the source and
  the result \<open>None\<close> in the model.
\<close>

definition in_bounds :: "int \<Rightarrow> int \<Rightarrow> int \<Rightarrow> bool" where
  "in_bounds cap a n = (0 \<le> a \<and> a + n \<le> cap)"

text \<open>
  \<open>DecodeMod(p)\<close> reads through \<open>p\<close> and advances it: the model returns the value and
  the new pointer. \<open>DecodeMod_from\<close> is the loop \<open>for (i=0; i<=21; i+=7)\<close>.
\<close>

function DecodeMod_from :: "mem \<Rightarrow> int \<Rightarrow> int \<Rightarrow> u32 \<Rightarrow> nat \<Rightarrow> (u32 \<times> int) option" where
  "DecodeMod_from m cap p x i =
     (if i \<le> 21
      then (if in_bounds cap p 1
            then (if (ucast (m p) :: u32) < 128
                  then Some (x + push_bit i (ucast (m p)), p + 1)
                  else DecodeMod_from m cap (p + 1) (x + push_bit i (ucast (m p))) (i + 7))
            else None)
      else Some (x, p))"
  by pat_completeness auto
termination
  by (relation "measure (\<lambda>(m, cap, p, x, i). 22 - i)") auto

definition DecodeMod :: "mem \<Rightarrow> int \<Rightarrow> int \<Rightarrow> (u32 \<times> int) option" where
  "DecodeMod m cap p = DecodeMod_from m cap p 0 0"

text \<open>
  The decoder calls \<open>WildCopy\<close> with a source in the input buffer (a literal run) and with
  a source in the output buffer itself (a match), where every eight-byte step reads the
  bytes the steps before it wrote.
\<close>

datatype source = Input | Output

definition src_ok :: "source \<Rightarrow> int \<Rightarrow> int \<Rightarrow> int \<Rightarrow> bool" where
  "src_ok src icap ocap s = in_bounds (case src of Input \<Rightarrow> icap | Output \<Rightarrow> ocap) s 8"

definition Copy64_chk ::
  "source \<Rightarrow> mem \<Rightarrow> int \<Rightarrow> mem \<Rightarrow> int \<Rightarrow> int \<Rightarrow> int \<Rightarrow> mem option" where
  "Copy64_chk src im icap om ocap d s =
     (if src_ok src icap ocap s \<and> in_bounds ocap d 8
      then Some (UnalignedCopy64 om d (case src of Input \<Rightarrow> im | Output \<Rightarrow> om) s)
      else None)"

function WildCopy_chk_from ::
  "source \<Rightarrow> mem \<Rightarrow> int \<Rightarrow> mem \<Rightarrow> int \<Rightarrow> int \<Rightarrow> int \<Rightarrow> int \<Rightarrow> int \<Rightarrow> mem option" where
  "WildCopy_chk_from src im icap om ocap d s n i =
     (if i < n
      then (case Copy64_chk src im icap om ocap (d + i) (s + i) of
              None \<Rightarrow> None
            | Some om' \<Rightarrow> WildCopy_chk_from src im icap om' ocap d s n (i + 8))
      else Some om)"
  by pat_completeness auto
termination
  by (relation "measure (\<lambda>(src, im, icap, om, ocap, d, s, n, i). nat (n - i))") auto

definition WildCopy_chk ::
  "source \<Rightarrow> mem \<Rightarrow> int \<Rightarrow> mem \<Rightarrow> int \<Rightarrow> int \<Rightarrow> int \<Rightarrow> int \<Rightarrow> mem option" where
  "WildCopy_chk src im icap om ocap d s n =
     (case Copy64_chk src im icap om ocap d s of
        None \<Rightarrow> None
      | Some om' \<Rightarrow> WildCopy_chk_from src im icap om' ocap d s n 8)"

definition Load16_chk :: "mem \<Rightarrow> int \<Rightarrow> int \<Rightarrow> u16 option" where
  "Load16_chk m cap a = (if in_bounds cap a 2 then Some (UnalignedLoad16 m a) else None)"

text \<open>One \<open>*op++=*cp++\<close> of the short-distance copy.\<close>

definition copy_byte :: "mem \<Rightarrow> int \<Rightarrow> int \<Rightarrow> int \<Rightarrow> mem option" where
  "copy_byte om ocap op cp =
     (if in_bounds ocap cp 1 \<and> in_bounds ocap op 1 then Some (om(op := om cp)) else None)"

text \<open>
  The loop \<open>while (len--!=4) *op++=*cp++\<close>. It is entered with \<open>len \<ge> 4\<close>; from a smaller
  \<open>len\<close> the source would count down through the whole \<open>int\<close> range and leave every
  buffer, which is the result \<open>None\<close>.
\<close>

function copy_tail :: "mem \<Rightarrow> int \<Rightarrow> int \<Rightarrow> int \<Rightarrow> int \<Rightarrow> mem option" where
  "copy_tail om ocap op cp len =
     (if len = 4 then Some om
      else if len < 4 then None
      else (case copy_byte om ocap op cp of
              None \<Rightarrow> None
            | Some om' \<Rightarrow> copy_tail om' ocap (op + 1) (cp + 1) (len - 1)))"
  by pat_completeness auto
termination
  by (relation "measure (\<lambda>(om, ocap, op, cp, len). nat (len - 4))") auto

definition copy_short :: "mem \<Rightarrow> int \<Rightarrow> int \<Rightarrow> int \<Rightarrow> int \<Rightarrow> mem option" where
  "copy_short om ocap op cp len =
     (case copy_byte om ocap op cp of None \<Rightarrow> None | Some o1 \<Rightarrow>
      case copy_byte o1 ocap (op + 1) (cp + 1) of None \<Rightarrow> None | Some o2 \<Rightarrow>
      case copy_byte o2 ocap (op + 2) (cp + 2) of None \<Rightarrow> None | Some o3 \<Rightarrow>
      case copy_byte o3 ocap (op + 3) (cp + 3) of None \<Rightarrow> None | Some o4 \<Rightarrow>
      copy_tail o4 ocap (op + 4) (cp + 4) len)"

subsection \<open>\<open>Decompress\<close>\<close>

text \<open>
  One round of the decoder's loop has two phases. Each ends the call with the error
  result \<open>-1\<close> (\<open>Stop_error\<close>), leaves the loop through \<open>break\<close> (\<open>Stop_end\<close>), or goes on
  (\<open>Continue\<close>) with the output memory and the pointers \<open>ip\<close> and \<open>op\<close>, which are offsets
  from \<open>in\<close> and \<open>out\<close>.

  \<open>DecodeMod\<close> returns at most \<open>538984575\<close> (lemma \<open>DecodeMod_le\<close> below), so the sums
  \<open>run+=DecodeMod(ip)\<close> and \<open>len+=DecodeMod(ip)\<close>, which the source computes in \<open>U32\<close> and
  converts back to \<open>int\<close>, are the sums of the integers.
\<close>

datatype phase = Stop_error mem | Stop_end mem int int | Continue mem int int

definition read_run :: "mem \<Rightarrow> int \<Rightarrow> int \<Rightarrow> int \<Rightarrow> (int \<times> int) option" where
  "read_run im icap token ip =
     (if drop_bit 5 token = 7
      then (case DecodeMod im icap ip of
              None \<Rightarrow> None
            | Some (x, ip') \<Rightarrow> Some (7 + uint x, ip'))
      else Some (drop_bit 5 token, ip))"

definition literal_phase ::
  "mem \<Rightarrow> int \<Rightarrow> int \<Rightarrow> mem \<Rightarrow> int \<Rightarrow> int \<Rightarrow> int \<Rightarrow> int \<Rightarrow> int \<Rightarrow> phase option" where
  "literal_phase im icap in_len om ocap out_len token ip op =
     (if 32 \<le> token
      then (case read_run im icap token ip of
              None \<Rightarrow> None
            | Some (run, ip1) \<Rightarrow>
                if out_len - op < run \<or> in_len - ip1 < run then Some (Stop_error om)
                else (case WildCopy_chk Input im icap om ocap op ip1 run of
                        None \<Rightarrow> None
                      | Some om' \<Rightarrow>
                          if in_len \<le> ip1 + run then Some (Stop_end om' (ip1 + run) (op + run))
                          else Some (Continue om' (ip1 + run) (op + run))))
      else Some (Continue om ip op))"

definition read_len :: "mem \<Rightarrow> int \<Rightarrow> int \<Rightarrow> int \<Rightarrow> (int \<times> int) option" where
  "read_len im icap token ip =
     (if (token AND 15) + MIN_MATCH = 15 + MIN_MATCH
      then (case DecodeMod im icap ip of
              None \<Rightarrow> None
            | Some (x, ip') \<Rightarrow> Some (15 + MIN_MATCH + uint x, ip'))
      else Some ((token AND 15) + MIN_MATCH, ip))"

definition match_phase ::
  "mem \<Rightarrow> int \<Rightarrow> mem \<Rightarrow> int \<Rightarrow> int \<Rightarrow> int \<Rightarrow> int \<Rightarrow> int \<Rightarrow> phase option" where
  "match_phase im icap om ocap out_len token ip op =
     (case read_len im icap token ip of
        None \<Rightarrow> None
      | Some (len, ip1) \<Rightarrow>
          if out_len - op < len then Some (Stop_error om)
          else (case Load16_chk im icap ip1 of
                  None \<Rightarrow> None
                | Some w \<Rightarrow>
                    let dist = push_bit 12 (token AND 16) + uint w
                    in if op < dist then Some (Stop_error om)
                       else if 8 \<le> dist
                       then (case WildCopy_chk Output im icap om ocap op (op - dist) len of
                               None \<Rightarrow> None
                             | Some om' \<Rightarrow> Some (Continue om' (ip1 + 2) (op + len)))
                       else (case copy_short om ocap op (op - dist) len of
                               None \<Rightarrow> None
                             | Some om' \<Rightarrow> Some (Continue om' (ip1 + 2) (op + len)))))"

lemma DecodeMod_from_advances:
  "DecodeMod_from m cap p x i = Some (y, p') \<Longrightarrow> p \<le> p'"
proof (induction m cap p x i rule: DecodeMod_from.induct)
  case (1 m cap p x i)
  show ?case
  proof (cases "i \<le> 21 \<and> in_bounds cap p 1 \<and> \<not> (ucast (m p) :: u32) < 128")
    case True
    then have "DecodeMod_from m cap (p + 1) (x + push_bit i (ucast (m p))) (i + 7) = Some (y, p')"
      using "1.prems" by (subst (asm) DecodeMod_from.simps) simp
    with True "1.IH" have "p + 1 \<le> p'"
      by simp
    then show ?thesis
      by simp
  next
    case False
    then show ?thesis
      using "1.prems" by (subst (asm) DecodeMod_from.simps) (auto split: if_splits)
  qed
qed

lemma literal_phase_advances:
  assumes "literal_phase im icap in_len om ocap out_len token ip op = Some (Continue om' ip' op')"
    and "0 \<le> token"
  shows "ip \<le> ip'"
proof (cases "32 \<le> token")
  case True
  obtain run ip1 where rr: "read_run im icap token ip = Some (run, ip1)"
    using assms(1) True by (auto simp: literal_phase_def split: option.splits)
  have "ip \<le> ip1 \<and> 0 \<le> run"
    using rr assms(2) DecodeMod_from_advances [of im icap ip 0 0]
    by (auto simp: read_run_def DecodeMod_def split: if_splits option.splits)
  moreover have "ip' = ip1 + run"
    using assms(1) True rr by (auto simp: literal_phase_def split: option.splits if_splits)
  ultimately show ?thesis
    by simp
next
  case False
  then show ?thesis
    using assms(1) by (simp add: literal_phase_def)
qed

lemma match_phase_advances:
  assumes "match_phase im icap om ocap out_len token ip op = Some (Continue om' ip' op')"
  shows "ip + 2 \<le> ip'"
proof -
  obtain len ip1 where rl: "read_len im icap token ip = Some (len, ip1)"
    using assms by (auto simp: match_phase_def split: option.splits)
  have "ip \<le> ip1"
    using rl DecodeMod_from_advances [of im icap ip 0 0]
    by (auto simp: read_len_def DecodeMod_def split: if_splits option.splits)
  moreover have "ip' = ip1 + 2"
    using assms rl by (auto simp: match_phase_def Let_def split: option.splits if_splits)
  ultimately show ?thesis
    by simp
qed

text \<open>
  The loop \<open>while (ip<ip_end)\<close> and the final \<open>return (ip==ip_end)?op-out:-1\<close>. The result
  is the returned \<open>int\<close> with the output memory the call leaves behind.
\<close>

function Decompress_loop ::
  "mem \<Rightarrow> int \<Rightarrow> int \<Rightarrow> int \<Rightarrow> int \<Rightarrow> mem \<Rightarrow> int \<Rightarrow> int \<Rightarrow> (int \<times> mem) option" where
  "Decompress_loop im icap in_len ocap out_len om ip op =
     (if ip < in_len
      then (if in_bounds icap ip 1
            then (case literal_phase im icap in_len om ocap out_len (uint (im ip)) (ip + 1) op of
                    None \<Rightarrow> None
                  | Some (Stop_error om1) \<Rightarrow> Some (- 1, om1)
                  | Some (Stop_end om1 ip1 op1) \<Rightarrow> Some (if ip1 = in_len then op1 else - 1, om1)
                  | Some (Continue om1 ip1 op1) \<Rightarrow>
                      (case match_phase im icap om1 ocap out_len (uint (im ip)) ip1 op1 of
                         None \<Rightarrow> None
                       | Some (Stop_error om2) \<Rightarrow> Some (- 1, om2)
                       | Some (Stop_end om2 ip2 op2) \<Rightarrow> Some (if ip2 = in_len then op2 else - 1, om2)
                       | Some (Continue om2 ip2 op2) \<Rightarrow>
                           Decompress_loop im icap in_len ocap out_len om2 ip2 op2))
            else None)
      else Some (if ip = in_len then op else - 1, om))"
  by pat_completeness auto
termination
proof (relation "measure (\<lambda>(im, icap, in_len, ocap, out_len, om, ip, op). nat (in_len - ip))")
  show "wf (measure (\<lambda>(im, icap, in_len, ocap, out_len, om, ip, op). nat (in_len - ip)))"
    by simp
next
  fix im :: mem and icap in_len ocap out_len :: int and om :: mem and ip op :: int
    and x2 :: phase and om1 :: mem and ip1 op1 :: int and x2a :: phase and om2 :: mem
    and ip2 op2 :: int
  assume lt: "ip < in_len"
    and lit: "literal_phase im icap in_len om ocap out_len (uint (im ip)) (ip + 1) op = Some x2"
      "x2 = Continue om1 ip1 op1"
    and mat: "match_phase im icap om1 ocap out_len (uint (im ip)) ip1 op1 = Some x2a"
      "x2a = Continue om2 ip2 op2"
  have "ip + 1 \<le> ip1"
    using literal_phase_advances [of im icap in_len om ocap out_len "uint (im ip)" "ip + 1" op om1 ip1 op1] lit
    by simp
  moreover have "ip1 + 2 \<le> ip2"
    using match_phase_advances [of im icap om1 ocap out_len "uint (im ip)" ip1 op1 om2 ip2 op2] mat
    by simp
  ultimately show "((im, icap, in_len, ocap, out_len, om2, ip2, op2), (im, icap, in_len, ocap, out_len, om, ip, op))
      \<in> measure (\<lambda>(im, icap, in_len, ocap, out_len, om, ip, op). nat (in_len - ip))"
    using lt by simp
qed

definition Decompress :: "mem \<Rightarrow> int \<Rightarrow> int \<Rightarrow> mem \<Rightarrow> int \<Rightarrow> int \<Rightarrow> (int \<times> mem) option" where
  "Decompress im icap in_len om ocap out_len = Decompress_loop im icap in_len ocap out_len om 0 0"

subsection \<open>Token emission, shared by both encoders\<close>

text \<open>
  The match loop \<open>while (len<max_match && in[s+len]==in[p+len]) ++len\<close>, which both
  encoders start at \<open>len = MIN_MATCH\<close>.
\<close>

function match_len :: "mem \<Rightarrow> int \<Rightarrow> int \<Rightarrow> int \<Rightarrow> int \<Rightarrow> int" where
  "match_len inm s p len lim =
     (if len < lim \<and> inm (s + len) = inm (p + len) then match_len inm s p (len + 1) lim
      else len)"
  by pat_completeness auto
termination
  by (relation "measure (\<lambda>(inm, s, p, len, lim). nat (lim - len))") auto

text \<open>
  The literal run of a token: the token byte \<open>tb\<close> with the run length in its top three
  bits, the extension of a run of seven or more, and the bytes of the run. The same lines
  end both encoders (with \<open>token = 0\<close>).
\<close>

definition emit_run :: "mem \<Rightarrow> mem \<Rightarrow> int \<Rightarrow> int \<Rightarrow> int \<Rightarrow> int \<Rightarrow> mem \<times> int" where
  "emit_run inm om op anchor p token =
     (let run = p - anchor;
          (om1, op1) =
            (if 7 \<le> run
             then EncodeMod (om(op := word_of_int (push_bit 5 7 + token))) (op + 1)
                    (word_of_int (run - 7))
             else (om(op := word_of_int (push_bit 5 run + token)), op + 1))
      in (WildCopy om1 op1 inm anchor run, op1 + run))"

text \<open>The block \<open>if (best_len>=MIN_MATCH) { ... op+=2;\<close> of both encoders.\<close>

definition emit_match :: "mem \<Rightarrow> mem \<Rightarrow> int \<Rightarrow> int \<Rightarrow> int \<Rightarrow> int \<Rightarrow> int \<Rightarrow> mem \<times> int" where
  "emit_match inm om op anchor p best_len dist =
     (let len = best_len - MIN_MATCH;
          token = (drop_bit 12 dist AND 16) + min len 15;
          (om1, op1) =
            (if anchor \<noteq> p then emit_run inm om op anchor p token
             else (om(op := word_of_int token), op + 1));
          (om2, op2) =
            (if 15 \<le> len then EncodeMod om1 op1 (word_of_int (len - 15)) else (om1, op1))
      in (UnalignedStore16 om2 op2 (word_of_int dist), op2 + 2))"

text \<open>The block \<open>if (anchor!=p) { ... }\<close> after the main loop of both encoders.\<close>

definition emit_last :: "mem \<Rightarrow> mem \<Rightarrow> int \<Rightarrow> int \<Rightarrow> int \<Rightarrow> mem \<times> int" where
  "emit_last inm om op anchor p =
     (if anchor \<noteq> p then emit_run inm om op anchor p 0 else (om, op))"

text \<open>The loop \<open>for (int i=0; i<HASH_SIZE; ++i) HashTable[i]=NIL\<close>.\<close>

definition reset :: "(nat \<Rightarrow> int) \<Rightarrow> (nat \<Rightarrow> int)" where
  "reset ht = (\<lambda>i. if i < HASH_SIZE then NIL else ht i)"

subsection \<open>\<open>CompressFast\<close>\<close>

text \<open>
  The probe of one position: \<open>best_len\<close>, \<open>dist\<close> and the hash table after the source's
  lines 119 to 143.
\<close>

definition fast_probe ::
  "mem \<Rightarrow> int \<Rightarrow> (nat \<Rightarrow> int) \<Rightarrow> int \<Rightarrow> int \<Rightarrow> int \<times> int \<times> (nat \<Rightarrow> int)" where
  "fast_probe inm in_len ht anchor p =
     (let max_match = in_len - p;
          (len0, dist, ht') =
            (if MIN_MATCH \<le> max_match
             then (let limit = max (p - WINDOW_SIZE) NIL;
                       h = Hash32 inm p;
                       s = ht h
                   in if limit < s \<and> UnalignedLoad32 inm s = UnalignedLoad32 inm p
                      then (match_len inm s p MIN_MATCH max_match, p - s, ht(h := p))
                      else (0, 0, ht(h := p)))
             else (0, 0, ht))
      in (if len0 = MIN_MATCH \<and> 7 + 128 \<le> p - anchor then 0 else len0, dist, ht'))"

text \<open>
  The statement \<open>HashTable[Hash32(&in[p])]=p++\<close> reads and increments \<open>p\<close> in one
  expression. Since C++17 the right operand is evaluated first, so the subscript sees the
  incremented \<open>p\<close>; before, the order is the compiler's choice. The model takes the order
  as the parameter \<open>rhs_first\<close>, and every theorem holds for both orders.
\<close>

definition insert_after :: "bool \<Rightarrow> mem \<Rightarrow> (nat \<Rightarrow> int) \<Rightarrow> int \<Rightarrow> (nat \<Rightarrow> int)" where
  "insert_after rhs_first inm ht q = ht(Hash32 inm (if rhs_first then q + 1 else q) := q)"

text \<open>
  The main loop. The last component is a ghost: the list of the back-references the loop
  has emitted, each with the input position \<open>p\<close> at which the match starts, its \<open>dist\<close>
  and its \<open>best_len\<close>. No other component depends on it.
\<close>

function CompressFast_loop ::
  "bool \<Rightarrow> mem \<Rightarrow> int \<Rightarrow> (nat \<Rightarrow> int) \<Rightarrow> mem \<Rightarrow> int \<Rightarrow> int \<Rightarrow> int \<Rightarrow> (int \<times> int \<times> int) list
     \<Rightarrow> (nat \<Rightarrow> int) \<times> mem \<times> int \<times> int \<times> int \<times> (int \<times> int \<times> int) list" where
  "CompressFast_loop rhs_first inm in_len ht om op anchor p refs =
     (if p < in_len
      then (case fast_probe inm in_len ht anchor p of
              (best_len, dist, ht1) \<Rightarrow>
                if MIN_MATCH \<le> best_len
                then (case emit_match inm om op anchor p best_len dist of
                        (om', op') \<Rightarrow>
                          CompressFast_loop rhs_first inm in_len
                            (insert_after rhs_first inm
                               (insert_after rhs_first inm
                                  (insert_after rhs_first inm ht1 (p + 1)) (p + 2)) (p + 3))
                            om' op' (p + best_len) (p + best_len) (refs @ [(p, dist, best_len)]))
                else CompressFast_loop rhs_first inm in_len ht1 om op anchor (p + 1) refs)
      else (ht, om, op, anchor, p, refs))"
  by pat_completeness auto
termination
  by (relation "measure (\<lambda>(rhs_first, inm, in_len, ht, om, op, anchor, p, refs). nat (in_len - p))")
    (auto simp: MIN_MATCH_def)

text \<open>
  A whole call: the length \<open>op-out\<close> of the stream, the output memory, the instance's
  \<open>HashTable\<close>, and the ghost list. \<open>CompressFast\<close> is the call as the source's caller sees
  it, which returns the length as an \<open>int\<close>.
\<close>

definition CompressFast_run ::
  "bool \<Rightarrow> mem \<Rightarrow> int \<Rightarrow> mem \<Rightarrow> (nat \<Rightarrow> int)
     \<Rightarrow> int \<times> mem \<times> (nat \<Rightarrow> int) \<times> (int \<times> int \<times> int) list" where
  "CompressFast_run rhs_first inm in_len om ht =
     (case CompressFast_loop rhs_first inm in_len (reset ht) om 0 0 0 [] of
        (ht', om', op, anchor, p, refs) \<Rightarrow>
          (case emit_last inm om' op anchor p of (om'', op') \<Rightarrow> (op', om'', ht', refs)))"

definition CompressFast ::
  "bool \<Rightarrow> mem \<Rightarrow> int \<Rightarrow> mem \<Rightarrow> (nat \<Rightarrow> int) \<Rightarrow> int \<times> mem \<times> (nat \<Rightarrow> int)" where
  "CompressFast rhs_first inm in_len om ht =
     (case CompressFast_run rhs_first inm in_len om ht of
        (n, om', ht', refs) \<Rightarrow> (to_int n, om', ht'))"

subsection \<open>\<open>Compress\<close>\<close>

text \<open>
  The chain walk of lines 227 to 250. The counter \<open>chain_len\<close> starts at \<open>max_chain \<ge> 2\<close>
  and the walk ends when it reaches zero, so it is a natural number here.
\<close>

function find_best ::
  "mem \<Rightarrow> (int \<Rightarrow> int) \<Rightarrow> int \<Rightarrow> int \<Rightarrow> int \<Rightarrow> int \<Rightarrow> nat \<Rightarrow> int \<Rightarrow> int \<Rightarrow> int \<times> int" where
  "find_best inm prev p max_match limit s chain_len best_len dist =
     (if limit < s
      then (let hit = (inm (s + best_len) = inm (p + best_len)
                          \<and> UnalignedLoad32 inm s = UnalignedLoad32 inm p);
                len = match_len inm s p MIN_MATCH max_match;
                better = (hit \<and> best_len < len);
                best_len' = (if better then len else best_len);
                dist' = (if better then p - s else dist)
            in if better \<and> len = max_match then (best_len', dist')
               else if chain_len - 1 = 0 then (best_len', dist')
               else find_best inm prev p max_match limit (prev (s AND WINDOW_MASK))
                      (chain_len - 1) best_len' dist')
      else (best_len, dist))"
  by pat_completeness auto
termination
  by (relation "measure (\<lambda>(inm, prev, p, max_match, limit, s, chain_len, best_len, dist). chain_len)")
    auto

text \<open>
  The chain walk of the lazy-matching test, lines 266 to 286: the new \<open>best_len\<close>, which is
  \<open>0\<close> when position \<open>x = p+1\<close> has a match of \<open>target_len\<close> bytes.
\<close>

function find_lazy ::
  "mem \<Rightarrow> (int \<Rightarrow> int) \<Rightarrow> int \<Rightarrow> int \<Rightarrow> int \<Rightarrow> int \<Rightarrow> nat \<Rightarrow> int \<Rightarrow> int" where
  "find_lazy inm prev x target_len limit s chain_len best_len =
     (if limit < s
      then (if inm (s + best_len) = inm (x + best_len)
               \<and> UnalignedLoad32 inm s = UnalignedLoad32 inm x
               \<and> match_len inm s x MIN_MATCH target_len = target_len
            then 0
            else if chain_len - 1 = 0 then best_len
            else find_lazy inm prev x target_len limit (prev (s AND WINDOW_MASK))
                   (chain_len - 1) best_len)
      else best_len)"
  by pat_completeness auto
termination
  by (relation "measure (\<lambda>(inm, prev, x, target_len, limit, s, chain_len, best_len). chain_len)")
    auto

text \<open>\<open>best_len\<close> and \<open>dist\<close> after the source's lines 217 to 287.\<close>

definition best_match ::
  "mem \<Rightarrow> int \<Rightarrow> int \<Rightarrow> nat \<Rightarrow> (nat \<Rightarrow> int) \<Rightarrow> (int \<Rightarrow> int) \<Rightarrow> int \<Rightarrow> int \<Rightarrow> int \<times> int" where
  "best_match inm in_len level max_chain ht prev anchor p =
     (let max_match = in_len - p;
          (len0, dist) =
            (if MIN_MATCH \<le> max_match
             then find_best inm prev p max_match (max (p - WINDOW_SIZE) NIL)
                    (ht (Hash32 inm p)) max_chain 0 0
             else (0, 0));
          len1 = (if len0 = MIN_MATCH \<and> 7 + 128 \<le> p - anchor then 0 else len0)
      in (if 5 \<le> level \<and> MIN_MATCH \<le> len1 \<and> len1 < max_match \<and> p - anchor \<noteq> 6
          then find_lazy inm prev (p + 1) (len1 + 1) (max (p + 1 - WINDOW_SIZE) NIL)
                 (ht (Hash32 inm (p + 1))) max_chain len1
          else len1, dist))"

text \<open>
  The three lines that enter position \<open>p\<close> into the chained table, and the loop
  \<open>while (best_len--!=0)\<close> around them, which is entered with \<open>best_len \<ge> MIN_MATCH\<close>.
\<close>

definition insert_pos ::
  "mem \<Rightarrow> (nat \<Rightarrow> int) \<Rightarrow> (int \<Rightarrow> int) \<Rightarrow> int \<Rightarrow> (nat \<Rightarrow> int) \<times> (int \<Rightarrow> int)" where
  "insert_pos inm ht prev p =
     (ht(Hash32 inm p := p), prev(p AND WINDOW_MASK := ht (Hash32 inm p)))"

function insert_run ::
  "mem \<Rightarrow> (nat \<Rightarrow> int) \<Rightarrow> (int \<Rightarrow> int) \<Rightarrow> int \<Rightarrow> int \<Rightarrow> (nat \<Rightarrow> int) \<times> (int \<Rightarrow> int)" where
  "insert_run inm ht prev p n =
     (if 0 < n
      then (case insert_pos inm ht prev p of (ht', prev') \<Rightarrow> insert_run inm ht' prev' (p + 1) (n - 1))
      else (ht, prev))"
  by pat_completeness auto
termination
  by (relation "measure (\<lambda>(inm, ht, prev, p, n). nat n)") auto

function Compress_loop ::
  "mem \<Rightarrow> int \<Rightarrow> int \<Rightarrow> nat \<Rightarrow> (nat \<Rightarrow> int) \<Rightarrow> (int \<Rightarrow> int) \<Rightarrow> mem \<Rightarrow> int \<Rightarrow> int \<Rightarrow> int
     \<Rightarrow> (int \<times> int \<times> int) list
     \<Rightarrow> (nat \<Rightarrow> int) \<times> (int \<Rightarrow> int) \<times> mem \<times> int \<times> int \<times> int \<times> (int \<times> int \<times> int) list" where
  "Compress_loop inm in_len level max_chain ht prev om op anchor p refs =
     (if p < in_len
      then (case best_match inm in_len level max_chain ht prev anchor p of
              (best_len, dist) \<Rightarrow>
                if MIN_MATCH \<le> best_len
                then (case emit_match inm om op anchor p best_len dist of
                        (om', op') \<Rightarrow>
                          (case insert_run inm ht prev p best_len of
                             (ht', prev') \<Rightarrow>
                               Compress_loop inm in_len level max_chain ht' prev' om' op'
                                 (p + best_len) (p + best_len) (refs @ [(p, dist, best_len)])))
                else (case insert_pos inm ht prev p of
                        (ht', prev') \<Rightarrow>
                          Compress_loop inm in_len level max_chain ht' prev' om op anchor (p + 1) refs))
      else (ht, prev, om, op, anchor, p, refs))"
  by pat_completeness auto
termination
  by (relation "measure (\<lambda>(inm, in_len, level, max_chain, ht, prev, om, op, anchor, p, refs).
        nat (in_len - p))") (auto simp: MIN_MATCH_def)

text \<open>
  A whole call: the length \<open>op-out\<close> of the stream (\<open>-1\<close> for a level outside \<open>1..9\<close>), the
  output memory, the instance's \<open>HashTable\<close> and \<open>Prev\<close>, and the ghost list. \<open>Compress\<close> is
  the call as the source's caller sees it, which returns the length as an \<open>int\<close>.
\<close>

definition Compress_run ::
  "mem \<Rightarrow> int \<Rightarrow> mem \<Rightarrow> int \<Rightarrow> (nat \<Rightarrow> int) \<Rightarrow> (int \<Rightarrow> int)
     \<Rightarrow> int \<times> mem \<times> (nat \<Rightarrow> int) \<times> (int \<Rightarrow> int) \<times> (int \<times> int \<times> int) list" where
  "Compress_run inm in_len om level ht prev =
     (if level < 1 \<or> 9 < level then (- 1, om, ht, prev, [])
      else (let max_chain = (if level < 9 then push_bit (nat level) 1 else push_bit 13 1)
            in case Compress_loop inm in_len level max_chain (reset ht) prev om 0 0 0 [] of
                 (ht', prev', om', op, anchor, p, refs) \<Rightarrow>
                   (case emit_last inm om' op anchor p of
                      (om'', op') \<Rightarrow> (op', om'', ht', prev', refs))))"

definition Compress ::
  "mem \<Rightarrow> int \<Rightarrow> mem \<Rightarrow> int \<Rightarrow> (nat \<Rightarrow> int) \<Rightarrow> (int \<Rightarrow> int)
     \<Rightarrow> int \<times> mem \<times> (nat \<Rightarrow> int) \<times> (int \<Rightarrow> int)" where
  "Compress inm in_len om level ht prev =
     (case Compress_run inm in_len om level ht prev of
        (n, om', ht', prev', refs) \<Rightarrow> (to_int n, om', ht', prev'))"

section \<open>Definitions used to state the properties\<close>

text \<open>
  \<open>mod_limit k\<close> is the number of values that \<open>EncodeMod\<close> writes in at most \<open>k\<close> bytes:
  \<open>128\<close>, \<open>16512\<close>, \<open>2113664\<close> and \<open>270549120\<close> for one to four bytes.
\<close>

primrec mod_limit :: "nat \<Rightarrow> nat" where
  "mod_limit 0 = 0"
| "mod_limit (Suc k) = 128 + 128 * mod_limit k"

text \<open>
  The number of bytes \<open>DecodeMod\<close> consumes at \<open>p\<close>: up to and including the first byte
  below \<open>128\<close>, and four at most.
\<close>

definition mod_count :: "mem \<Rightarrow> int \<Rightarrow> nat" where
  "mod_count m p =
     (if m p < 128 then 1 else if m (p + 1) < 128 then 2 else if m (p + 2) < 128 then 3 else 4)"

text \<open>
  Two readings of \<open>k\<close> bytes at \<open>p\<close> as a number. \<open>byte_sum\<close> shifts the whole byte \<open>i\<close>
  left by \<open>7 * i\<close>. \<open>payload_sum\<close> follows the words of the specification: it shifts the
  low seven bits of byte \<open>i\<close>, that is \<open>byte AND 127\<close>, left by \<open>7 * i\<close>.
\<close>

definition byte_sum :: "mem \<Rightarrow> int \<Rightarrow> nat \<Rightarrow> u32" where
  "byte_sum m p k = (\<Sum>i\<leftarrow>[0..<k]. push_bit (7 * i) (ucast (m (p + int i))))"

definition payload_sum :: "mem \<Rightarrow> int \<Rightarrow> nat \<Rightarrow> u32" where
  "payload_sum m p k = (\<Sum>i\<leftarrow>[0..<k]. push_bit (7 * i) (ucast (m (p + int i) AND 127)))"

text \<open>The memory that holds the bytes \<open>bs\<close> from offset \<open>0\<close> on, and zeros elsewhere.\<close>

definition mem_of :: "u8 list \<Rightarrow> mem" where
  "mem_of bs = (\<lambda>a. if 0 \<le> a \<and> a < int (length bs) then bs ! nat a else 0)"

text \<open>
  The state of the match finder before position \<open>p\<close> is entered. Every bucket of
  \<open>HashTable\<close> is empty or holds a position below \<open>p\<close>; and for every position \<open>s\<close> of the
  last \<open>WINDOW_SIZE\<close> positions below \<open>p\<close>, the slot of \<open>s\<close> in \<open>Prev\<close> is empty or holds a
  position below \<open>s\<close>.
\<close>

definition table_ok :: "(nat \<Rightarrow> int) \<Rightarrow> int \<Rightarrow> bool" where
  "table_ok ht p = (\<forall>h<HASH_SIZE. ht h = NIL \<or> (0 \<le> ht h \<and> ht h < p))"

definition chain_ok :: "(int \<Rightarrow> int) \<Rightarrow> int \<Rightarrow> bool" where
  "chain_ok prev p =
     (\<forall>s. 0 \<le> s \<and> p - WINDOW_SIZE \<le> s \<and> s < p
        \<longrightarrow> prev (s AND WINDOW_MASK) = NIL
            \<or> (0 \<le> prev (s AND WINDOW_MASK) \<and> prev (s AND WINDOW_MASK) < s))"

text \<open>
  A back-reference of \<open>len\<close> bytes at distance \<open>dist\<close>, found at input position \<open>p\<close> of an
  input of \<open>in_len\<close> bytes: it lies inside the window and inside the input, and the bytes
  it refers to are the bytes at \<open>p\<close>.
\<close>

definition match_ok :: "mem \<Rightarrow> int \<Rightarrow> int \<Rightarrow> int \<Rightarrow> int \<Rightarrow> bool" where
  "match_ok inm in_len p dist len =
     (1 \<le> dist \<and> dist < WINDOW_SIZE \<and> dist \<le> p \<and> MIN_MATCH \<le> len \<and> p + len \<le> in_len
      \<and> (\<forall>i. 0 \<le> i \<and> i < len \<longrightarrow> inm (p - dist + i) = inm (p + i)))"

text \<open>
  Two states of the instance's tables that the match finder cannot tell apart at position
  \<open>p\<close>: the buckets of \<open>HashTable\<close> are equal, and so are the slots of \<open>Prev\<close> of the last
  \<open>WINDOW_SIZE\<close> positions below \<open>p\<close>.
\<close>

definition same_tables ::
  "(nat \<Rightarrow> int) \<Rightarrow> (int \<Rightarrow> int) \<Rightarrow> (nat \<Rightarrow> int) \<Rightarrow> (int \<Rightarrow> int) \<Rightarrow> int \<Rightarrow> bool" where
  "same_tables htA prevA htB prevB p =
     ((\<forall>h<HASH_SIZE. htB h = htA h)
      \<and> (\<forall>s. 0 \<le> s \<and> p - WINDOW_SIZE \<le> s \<and> s < p
             \<longrightarrow> prevB (s AND WINDOW_MASK) = prevA (s AND WINDOW_MASK)))"

text \<open>
  The encoder and the decoder in step. The encoder has written \<open>op\<close> bytes into \<open>om\<close> and
  has encoded the input below \<open>anchor\<close>. \<open>decoder_at\<close> says: for every buffer \<open>im\<close> that
  holds these \<open>op\<close> bytes, however it goes on, and every stream length \<open>n \<ge> op\<close>, the
  decoder started at the beginning of \<open>im\<close> comes to input offset \<open>op\<close> with \<open>anchor\<close> bytes
  produced, and these are the input's. Both buffers of the decoder have their guard
  regions of \<open>EXCESS\<close> bytes allocated.
\<close>

definition decoder_at :: "mem \<Rightarrow> int \<Rightarrow> mem \<Rightarrow> int \<Rightarrow> int \<Rightarrow> bool" where
  "decoder_at inm in_len om op anchor =
     (\<forall>im icap n ocap omd.
        (\<forall>a. 0 \<le> a \<and> a < op \<longrightarrow> im a = om a) \<and> op \<le> n \<and> n + EXCESS \<le> icap
          \<and> in_len + EXCESS \<le> ocap
        \<longrightarrow> (\<exists>omd'. (\<forall>a. 0 \<le> a \<and> a < anchor \<longrightarrow> omd' a = inm a)
              \<and> Decompress_loop im icap n ocap in_len omd 0 0
                  = Decompress_loop im icap n ocap in_len omd' op anchor))"

text \<open>
  The same encoder state and a stream cut short. \<open>decoder_cut\<close> says: on every buffer that
  holds the first \<open>n < op\<close> bytes of \<open>om\<close>, however it goes on, the decoder called with the
  stream length \<open>n\<close> ends in the error result, or it returns a number of bytes that is at
  most \<open>anchor\<close>, and these bytes are the input's.
\<close>

definition decoder_cut :: "mem \<Rightarrow> int \<Rightarrow> mem \<Rightarrow> int \<Rightarrow> int \<Rightarrow> bool" where
  "decoder_cut inm in_len om op anchor =
     (\<forall>im icap n ocap omd m omd'.
        0 \<le> n \<and> n < op \<and> (\<forall>a. 0 \<le> a \<and> a < n \<longrightarrow> im a = om a) \<and> n + EXCESS \<le> icap
          \<and> in_len + EXCESS \<le> ocap
          \<and> Decompress_loop im icap n ocap in_len omd 0 0 = Some (m, omd')
        \<longrightarrow> m = - 1 \<or> (m \<le> anchor \<and> (\<forall>a. 0 \<le> a \<and> a < m \<longrightarrow> omd' a = inm a)))"

text \<open>
  The round trip of a compressed stream of \<open>n\<close> bytes in \<open>omc\<close>, made from the \<open>in_len\<close>
  bytes of \<open>inm\<close>: on every buffer that holds the \<open>n\<close> bytes, with \<open>in_len\<close> declared as the
  output length, \<open>Decompress\<close> returns \<open>in_len\<close> and leaves the input's bytes in the output
  buffer.
\<close>

definition round_trips :: "mem \<Rightarrow> int \<Rightarrow> int \<Rightarrow> mem \<Rightarrow> bool" where
  "round_trips inm in_len n omc =
     (\<forall>im icap omd ocap.
        (\<forall>a. 0 \<le> a \<and> a < n \<longrightarrow> im a = omc a) \<and> n + EXCESS \<le> icap \<and> in_len + EXCESS \<le> ocap
        \<longrightarrow> (\<exists>omd'. Decompress im icap n omd ocap in_len = Some (in_len, omd')
              \<and> (\<forall>a. 0 \<le> a \<and> a < in_len \<longrightarrow> omd' a = inm a)))"

text \<open>
  The stream with its last \<open>k\<close> bytes removed, that is \<open>Decompress\<close> called with the length
  \<open>n - k\<close> on a buffer that holds the first \<open>n - k\<close> bytes of the stream: the call returns,
  and what it returns is the error result \<open>-1\<close> or the length of an output shorter than the
  declared output length \<open>in_len\<close>, which is then the beginning of the input \<open>inm\<close>.
\<close>

definition truncation_shortens :: "mem \<Rightarrow> int \<Rightarrow> int \<Rightarrow> mem \<Rightarrow> bool" where
  "truncation_shortens inm in_len n omc =
     (\<forall>k im icap omd ocap.
        1 \<le> k \<and> k \<le> n \<and> (\<forall>a. 0 \<le> a \<and> a < n - k \<longrightarrow> im a = omc a)
          \<and> n - k + EXCESS \<le> icap \<and> in_len + EXCESS \<le> ocap
        \<longrightarrow> (\<exists>m omd'. Decompress im icap (n - k) omd ocap in_len = Some (m, omd')
              \<and> (m = - 1
                  \<or> (0 \<le> m \<and> m < in_len \<and> (\<forall>a. 0 \<le> a \<and> a < m \<longrightarrow> omd' a = inm a)))))"



section \<open>Properties\<close>

declare EncodeMod.simps [simp del] DecodeMod_from.simps [simp del] WildCopy_from.simps [simp del]
  WildCopy_chk_from.simps [simp del] copy_tail.simps [simp del] Decompress_loop.simps [simp del]
  match_len.simps [simp del] CompressFast_loop.simps [simp del] find_best.simps [simp del]
  find_lazy.simps [simp del] insert_run.simps [simp del] Compress_loop.simps [simp del]

text \<open>The definitions that evaluate the model on a concrete input.\<close>

lemmas ulz_defs = to_int_def EXCESS_def WINDOW_BITS_def WINDOW_SIZE_def WINDOW_MASK_def MIN_MATCH_def
  HASH_BITS_def HASH_SIZE_def NIL_def UnalignedLoad16_def UnalignedLoad32_def
  UnalignedStore16_def UnalignedCopy64_def WildCopy_def Hash32_def in_bounds_def DecodeMod_def
  src_ok_def Copy64_chk_def WildCopy_chk_def Load16_chk_def copy_byte_def copy_short_def
  read_run_def literal_phase_def read_len_def match_phase_def Decompress_def emit_run_def
  emit_match_def emit_last_def reset_def fast_probe_def insert_after_def CompressFast_run_def
  CompressFast_def best_match_def insert_pos_def Compress_run_def Compress_def word_rcat_def
  Let_def

lemmas ulz_loops = EncodeMod.simps DecodeMod_from.simps WildCopy_from.simps
  WildCopy_chk_from.simps copy_tail.simps Decompress_loop.simps match_len.simps
  CompressFast_loop.simps find_best.simps find_lazy.simps insert_run.simps Compress_loop.simps

lemma upt_small: "[0..<1] = [0]" "[0..<2] = [0, 1]" "[0..<3] = [0, 1, 2]" "[0..<4] = [0, 1, 2, 3]"
  by (simp_all add: upt_rec)

subsection \<open>The variable-length integers\<close>

lemma unat_and_127: "unat (y AND 127 :: u32) = unat y mod 128"
proof -
  have "(127 :: u32) = mask 7"
    by (simp add: mask_eq_exp_minus_1)
  then have "y AND 127 = take_bit 7 y"
    by (simp add: take_bit_eq_mask)
  then show ?thesis
    by (simp add: take_bit_eq_mod unat_mod)
qed

lemma split_low7: "(y AND 127) + push_bit 7 (drop_bit 7 y) = (y :: u32)"
proof -
  have "(127 :: u32) = mask 7"
    by (simp add: mask_eq_exp_minus_1)
  then have "y AND 127 = take_bit 7 y"
    by (simp add: take_bit_eq_mask)
  then show ?thesis
    using bits_ident [of 7 y] by (simp add: add.commute)
qed

lemma unat_cont_byte: "unat (128 + (y AND 127) :: u32) = 128 + unat y mod 128"
proof -
  have "unat (128 + (y AND 127) :: u32) = (128 + unat (y AND 127 :: u32)) mod 2 ^ 32"
    by (simp add: unat_word_ariths)
  then show ?thesis
    by (simp add: unat_and_127)
qed

lemma cont_byte_back:
  "(ucast (ucast (128 + (y AND 127) :: u32) :: u8) :: u32) = 128 + (y AND 127)"
  by (simp add: word_unat_eq_iff unsigned_ucast_eq take_bit_eq_mod unat_mod unat_cont_byte)

lemma cont_byte_high: "\<not> (128 + (y AND 127) :: u32) < 128"
  by (simp add: word_less_nat_alt unat_cont_byte)

lemma last_byte_back: "\<not> 128 \<le> x \<Longrightarrow> (ucast (ucast (x :: u32) :: u8) :: u32) = x"
  by (simp add: word_unat_eq_iff unsigned_ucast_eq take_bit_eq_mod unat_mod word_le_nat_alt)

lemma unat_rest: "128 \<le> x \<Longrightarrow> unat (drop_bit 7 (x - 128 :: u32)) = (unat x - 128) div 128"
  by (simp add: drop_bit_eq_div unat_div unat_sub)

lemma ucast_u8_less: "((ucast (b :: u8) :: u32) < 128) = (b < 128)"
  using unsigned_less [of b, where ?'a = nat]
  by (simp add: word_less_nat_alt unsigned_ucast_eq take_bit_eq_mod)

lemma mod_limit_4: "mod_limit 4 = 270549120"
proof -
  have "mod_limit 4 = mod_limit (Suc (Suc (Suc (Suc 0))))"
    by (rule arg_cong [where f = mod_limit]) simp
  then show ?thesis
    by simp
qed

text \<open>\<open>EncodeMod\<close> moves the pointer forward and leaves the memory below it alone.\<close>

lemma EncodeMod_frame:
  "EncodeMod m p x = (m', p') \<Longrightarrow> p < p' \<and> (\<forall>a<p. m' a = m a)"
proof (induction m p x rule: EncodeMod.induct)
  case (1 m p x)
  show ?case
  proof (cases "128 \<le> x")
    case True
    then have "EncodeMod (m(p := ucast (128 + ((x - 128) AND 127)))) (p + 1) (drop_bit 7 (x - 128))
        = (m', p')"
      using "1.prems" by (subst (asm) EncodeMod.simps) simp
    from "1.IH" [OF True this] show ?thesis
      by auto
  next
    case False
    then show ?thesis
      using "1.prems" by (subst (asm) EncodeMod.simps) auto
  qed
qed

text \<open>
  A value below \<open>mod_limit k\<close> is written in at most \<open>k\<close> bytes, and the decoder's loop,
  entered at the shift \<open>i\<close> that leaves it \<open>k\<close> rounds, reads the value back.
\<close>

lemma EncodeMod_DecodeMod_from:
  "unat x < mod_limit k \<Longrightarrow> EncodeMod m p x = (m', p') \<Longrightarrow> 0 \<le> p \<Longrightarrow> p' \<le> cap
    \<Longrightarrow> 7 * k + i = 28
    \<Longrightarrow> DecodeMod_from m' cap p acc i = Some (acc + push_bit i x, p') \<and> p' \<le> p + int k"
proof (induction k arbitrary: x m p acc i)
  case 0
  then show ?case
    by simp
next
  case (Suc k)
  have i21: "i \<le> 21"
    using Suc.prems(5) by simp
  show ?case
  proof (cases "128 \<le> x")
    case False
    then have "(m(p := ucast x), p + 1) = (m', p')"
      using Suc.prems(2) by (subst (asm) EncodeMod.simps) simp
    then have res: "m' = m(p := ucast x)" "p' = p + 1"
      by simp_all
    have "(ucast (m' p) :: u32) = x"
      using False res by (simp add: last_byte_back)
    moreover have "x < 128"
      using False by simp
    moreover have "in_bounds cap p 1"
      using Suc.prems(3,4) res by (simp add: in_bounds_def)
    ultimately show ?thesis
      using i21 res by (subst DecodeMod_from.simps) simp
  next
    case True
    define c :: u32 where "c = 128 + ((x - 128) AND 127)"
    define x' :: u32 where "x' = drop_bit 7 (x - 128)"
    have rec: "EncodeMod (m(p := ucast c)) (p + 1) x' = (m', p')"
      using Suc.prems(2) True unfolding c_def x'_def by (subst (asm) EncodeMod.simps) simp
    have "128 \<le> unat x"
      using True by (simp add: word_le_nat_alt)
    then have "(unat x - 128) div 128 < mod_limit k"
      using Suc.prems(1) by simp
    then have small: "unat x' < mod_limit k"
      using True unfolding x'_def by (simp add: unat_rest)
    have step: "7 * k + (i + 7) = 28"
      using Suc.prems(5) by simp
    have ih: "DecodeMod_from m' cap (p + 1) (acc + push_bit i c) (i + 7)
                = Some (acc + push_bit i c + push_bit (i + 7) x', p')" "p' \<le> p + 1 + int k"
      using Suc.IH [OF small rec _ Suc.prems(4) step, of "acc + push_bit i c"] Suc.prems(3)
      by simp_all
    have fr: "p + 1 < p'" "m' p = ucast c"
      using EncodeMod_frame [OF rec] by simp_all
    have byte: "(ucast (m' p) :: u32) = c" "\<not> c < 128"
      unfolding fr c_def by (simp_all add: cont_byte_back cont_byte_high)
    have "c + push_bit 7 x' = x"
      unfolding c_def x'_def using split_low7 [of "x - 128"] by (simp add: add.assoc)
    then have "push_bit i x = push_bit i (c + push_bit 7 x')"
      by simp
    also have "\<dots> = push_bit i c + push_bit (i + 7) x'"
      by (simp add: push_bit_add add.commute)
    finally have "push_bit i c + push_bit (i + 7) x' = push_bit i x"
      by simp
    then have val: "acc + push_bit i c + push_bit (i + 7) x' = acc + push_bit i x"
      by (simp add: add.assoc)
    have "in_bounds cap p 1"
      using Suc.prems(3,4) fr by (simp add: in_bounds_def)
    then have "DecodeMod_from m' cap p acc i = Some (acc + push_bit i x, p')"
      using i21 byte ih(1) val by (subst DecodeMod_from.simps) simp
    then show ?thesis
      using ih(2) by simp
  qed
qed

text \<open>
  Claim C9. For every \<open>x < 2^27\<close>, \<open>DecodeMod\<close> started where \<open>EncodeMod(x)\<close> started, on
  the memory \<open>EncodeMod\<close> left, returns exactly \<open>x\<close> and stops exactly where \<open>EncodeMod\<close>
  stopped, at most four bytes on.
\<close>

theorem EncodeMod_then_DecodeMod:
  assumes "x < 2 ^ 27" and "EncodeMod m p x = (m', p')" and "0 \<le> p" and "p' \<le> cap"
  shows "DecodeMod m' cap p = Some (x, p') \<and> p < p' \<and> p' \<le> p + 4"
proof -
  have "unat x < 2 ^ 27"
    using assms(1) by (simp add: word_less_nat_alt)
  then have "unat x < mod_limit 4"
    by (simp add: mod_limit_4)
  from EncodeMod_DecodeMod_from [OF this assms(2,3,4), of 0 0] EncodeMod_frame [OF assms(2)]
  show ?thesis
    by (simp add: DecodeMod_def)
qed

theorem EncodeMod_then_DecodeMod_witness:
  "(300 :: u32) < 2 ^ 27 \<and>
   DecodeMod (fst (EncodeMod (\<lambda>_. 0) 0 300)) 2 0 = Some (300, snd (EncodeMod (\<lambda>_. 0) 0 300)) \<and>
   snd (EncodeMod (\<lambda>_. 0) 0 300) = 2"
  using EncodeMod_then_DecodeMod [of 300 "\<lambda>_. 0" 0 "fst (EncodeMod (\<lambda>_. 0) 0 300)"
      "snd (EncodeMod (\<lambda>_. 0) 0 300)" 2]
  by (simp add: ulz_loops ulz_defs word_le_nat_alt word_less_nat_alt)

text \<open>What \<open>DecodeMod\<close> returns, and where it stops.\<close>

lemma DecodeMod_value:
  assumes "in_bounds cap p (int (mod_count m p))"
  shows "DecodeMod m cap p = Some (byte_sum m p (mod_count m p), p + int (mod_count m p))"
proof -
  consider (one) "m p < 128"
    | (two) "\<not> m p < 128" "m (p + 1) < 128"
    | (three) "\<not> m p < 128" "\<not> m (p + 1) < 128" "m (p + 2) < 128"
    | (four) "\<not> m p < 128" "\<not> m (p + 1) < 128" "\<not> m (p + 2) < 128"
    by blast
  then show ?thesis
  proof cases
    case one
    then show ?thesis
      using assms
      by (simp add: DecodeMod_def mod_count_def byte_sum_def DecodeMod_from.simps [of m cap p]
          in_bounds_def ucast_u8_less upt_small)
  next
    case two
    then show ?thesis
      using assms
      by (simp add: DecodeMod_def mod_count_def byte_sum_def DecodeMod_from.simps [of m cap p]
          DecodeMod_from.simps [of m cap "p + 1"] in_bounds_def ucast_u8_less upt_small)
  next
    case three
    then show ?thesis
      using assms
      by (simp add: DecodeMod_def mod_count_def byte_sum_def DecodeMod_from.simps [of m cap p]
          DecodeMod_from.simps [of m cap "p + 1"] DecodeMod_from.simps [of m cap "p + 2"]
          in_bounds_def ucast_u8_less upt_small add.assoc)
  next
    case four
    then show ?thesis
      using assms
      by (simp add: DecodeMod_def mod_count_def byte_sum_def DecodeMod_from.simps [of m cap p]
          DecodeMod_from.simps [of m cap "p + 1"] DecodeMod_from.simps [of m cap "p + 2"]
          DecodeMod_from.simps [of m cap "p + 3"] DecodeMod_from.simps [of m cap "p + 4"]
          in_bounds_def ucast_u8_less upt_small add.assoc)
  qed
qed

text \<open>Every byte \<open>EncodeMod\<close> writes but the last has its high bit set; the last has not.\<close>

lemma EncodeMod_high_bits:
  "EncodeMod m p x = (m', p')
    \<Longrightarrow> (\<forall>a. p \<le> a \<and> a < p' - 1 \<longrightarrow> 128 \<le> m' a) \<and> m' (p' - 1) < 128"
proof (induction m p x rule: EncodeMod.induct)
  case (1 m p x)
  show ?case
  proof (cases "128 \<le> x")
    case True
    define c :: u32 where "c = 128 + ((x - 128) AND 127)"
    have rec: "EncodeMod (m(p := ucast c)) (p + 1) (drop_bit 7 (x - 128)) = (m', p')"
      using "1.prems" True unfolding c_def by (subst (asm) EncodeMod.simps) simp
    have ih: "(\<forall>a. p + 1 \<le> a \<and> a < p' - 1 \<longrightarrow> 128 \<le> m' a) \<and> m' (p' - 1) < 128"
      using "1.IH" [OF True rec [unfolded c_def]] .
    have "m' p = ucast c"
      using EncodeMod_frame [OF rec] by simp
    moreover have "128 \<le> (ucast c :: u8)"
      unfolding c_def
      by (simp add: word_le_nat_alt unsigned_ucast_eq take_bit_eq_mod unat_cont_byte)
    ultimately have first: "128 \<le> m' p"
      by simp
    show ?thesis
    proof (intro conjI allI impI)
      fix a
      assume "p \<le> a \<and> a < p' - 1"
      then show "128 \<le> m' a"
        using first ih by (cases "a = p") auto
    next
      show "m' (p' - 1) < 128"
        using ih by simp
    qed
  next
    case False
    then have "(m(p := ucast x), p + 1) = (m', p')"
      using "1.prems" by (subst (asm) EncodeMod.simps) simp
    moreover have "(ucast x :: u8) < 128"
      using False
      by (simp add: word_less_nat_alt word_le_nat_alt unsigned_ucast_eq take_bit_eq_mod)
    ultimately show ?thesis
      by auto
  qed
qed

text \<open>
  Claim C3, as amended. The codec is not the standard base-128 scheme: \<open>EncodeMod\<close>
  subtracts \<open>128\<close> before it writes a continuation byte, and \<open>DecodeMod\<close> adds every byte
  whole, with its high bit. So: every byte \<open>EncodeMod\<close> writes but the last has its high
  bit set and the last has it clear; \<open>DecodeMod\<close> stops after the first byte with a clear
  high bit, after four bytes at the latest; and it returns the sum of the consumed bytes,
  byte \<open>i\<close> shifted left by \<open>7 * i\<close>.
\<close>

theorem Mod_codec:
  assumes "EncodeMod m p x = (m', p')" and "in_bounds cap q (int (mod_count im q))"
  shows "(\<forall>a. p \<le> a \<and> a < p' - 1 \<longrightarrow> 128 \<le> m' a) \<and> m' (p' - 1) < 128
    \<and> DecodeMod im cap q = Some (byte_sum im q (mod_count im q), q + int (mod_count im q))
    \<and> mod_count im q \<le> 4
    \<and> (\<forall>j<mod_count im q - 1. 128 \<le> im (q + int j))
    \<and> (mod_count im q < 4 \<longrightarrow> im (q + int (mod_count im q - 1)) < 128)"
proof -
  have "mod_count im q \<le> 4"
    by (simp add: mod_count_def)
  moreover have "\<forall>j<mod_count im q - 1. 128 \<le> im (q + int j)"
  proof (intro allI impI)
    fix j
    assume "j < mod_count im q - 1"
    then have "j = 0 \<and> \<not> im q < 128 \<or> j = 1 \<and> \<not> im q < 128 \<and> \<not> im (q + 1) < 128
        \<or> j = 2 \<and> \<not> im q < 128 \<and> \<not> im (q + 1) < 128 \<and> \<not> im (q + 2) < 128"
      by (auto simp: mod_count_def split: if_splits)
    then show "128 \<le> im (q + int j)"
      by auto
  qed
  moreover have "mod_count im q < 4 \<longrightarrow> im (q + int (mod_count im q - 1)) < 128"
    by (auto simp: mod_count_def)
  ultimately show ?thesis
    using EncodeMod_high_bits [OF assms(1)] DecodeMod_value [OF assms(2)] by simp
qed

theorem Mod_codec_witness:
  "fst (EncodeMod (\<lambda>_. 0) 0 128) 0 = 128 \<and> fst (EncodeMod (\<lambda>_. 0) 0 128) 1 = 0
    \<and> snd (EncodeMod (\<lambda>_. 0) 0 128) = 2
    \<and> DecodeMod (fst (EncodeMod (\<lambda>_. 0) 0 128)) 2 0 = Some (128, 2)
    \<and> byte_sum (fst (EncodeMod (\<lambda>_. 0) 0 128)) 0 2 = 128"
  using Mod_codec [of "\<lambda>_. 0" 0 128 "fst (EncodeMod (\<lambda>_. 0) 0 128)"
      "snd (EncodeMod (\<lambda>_. 0) 0 128)" 2 0 "fst (EncodeMod (\<lambda>_. 0) 0 128)"]
  by (simp add: ulz_loops ulz_defs mod_count_def byte_sum_def upt_small word_le_nat_alt
      word_less_nat_alt)

text \<open>
  The claim as it stands fails on the bytes \<open>EncodeMod\<close> writes for \<open>128\<close>, which are \<open>128\<close>
  and \<open>0\<close>: \<open>DecodeMod\<close> consumes both and returns \<open>128\<close>, and the sum of their low seven
  bits, shifted, is \<open>0\<close>.
\<close>

theorem Mod_codec_not_base128:
  "DecodeMod (fst (EncodeMod (\<lambda>_. 0) 0 128)) 2 0 = Some (128, 2)
    \<and> payload_sum (fst (EncodeMod (\<lambda>_. 0) 0 128)) 0 2 = 0"
  by (simp add: ulz_loops ulz_defs payload_sum_def upt_small word_le_nat_alt word_less_nat_alt)

subsection \<open>The decoder: what it reads, what it writes, what it returns\<close>

text \<open>
  \<open>DecodeMod\<close> returns at most \<open>255 * (1 + 2^7 + 2^14 + 2^21) = 538984575\<close>, which is why
  the sums with its result in \<open>read_run\<close> and \<open>read_len\<close> do not wrap around.
\<close>

lemma uint_push_byte: "uint (push_bit i (ucast (b :: u8)) :: u32) \<le> 255 * 2 ^ i"
proof -
  have "uint (push_bit i (ucast b) :: u32) \<le> push_bit i (uint (ucast b :: u32))"
    by (simp add: unsigned_push_bit_eq take_bit_int_less_eq_self_iff)
  also have "\<dots> = uint b * 2 ^ i"
    using unsigned_less [of b, where ?'a = int]
    by (simp add: push_bit_eq_mult unsigned_ucast_eq take_bit_eq_mod)
  also have "\<dots> \<le> 255 * 2 ^ i"
    using unsigned_less [of b, where ?'a = int] by (intro mult_right_mono) simp_all
  finally show ?thesis .
qed

lemma DecodeMod_from_le:
  "DecodeMod_from m cap p x i = Some (y, p') \<Longrightarrow> i \<le> 21
    \<Longrightarrow> 127 * (uint y - uint x) \<le> 255 * (2 ^ 28 - 2 ^ i)"
proof (induction m cap p x i rule: DecodeMod_from.induct)
  case (1 m cap p x i)
  define t :: int where "t = 2 ^ i"
  have "(2 :: int) ^ i \<le> 2 ^ 21"
    using "1.prems"(2) by (intro power_increasing) simp_all
  then have t: "0 < t" "128 * t \<le> 2 ^ 28"
    unfolding t_def by simp_all
  define x' where "x' = x + push_bit i (ucast (m p))"
  have "uint x' \<le> uint x + uint (push_bit i (ucast (m p)) :: u32)"
    unfolding x'_def by (simp add: uint_add_le)
  then have x': "uint x' \<le> uint x + 255 * t"
    using uint_push_byte [of i "m p"] unfolding t_def by simp
  have ib: "in_bounds cap p 1"
    using "1.prems" by (subst (asm) DecodeMod_from.simps) (simp split: if_splits)
  show ?case
  proof (cases "(ucast (m p) :: u32) < 128")
    case True
    then have "y = x'"
      using "1.prems" ib unfolding x'_def by (subst (asm) DecodeMod_from.simps) simp
    then show ?thesis
      using x' t unfolding t_def by simp
  next
    case False
    then have rec: "DecodeMod_from m cap (p + 1) x' (i + 7) = Some (y, p')"
      using "1.prems" ib unfolding x'_def by (subst (asm) DecodeMod_from.simps) simp
    show ?thesis
    proof (cases "i + 7 \<le> 21")
      case True
      from "1.IH" [OF "1.prems"(2) ib False rec [unfolded x'_def] True]
      have "127 * (uint y - uint x') \<le> 255 * (2 ^ 28 - 128 * t)"
        unfolding x'_def t_def by (simp add: power_add)
      then show ?thesis
        using x' t unfolding t_def by simp
    next
      case False
      then have "y = x'"
        using rec by (subst (asm) DecodeMod_from.simps) simp
      then show ?thesis
        using x' t unfolding t_def by simp
    qed
  qed
qed

lemma DecodeMod_le: "DecodeMod m cap p = Some (x, p') \<Longrightarrow> uint x \<le> 538984575"
  using DecodeMod_from_le [of m cap p 0 0 x p'] by (simp add: DecodeMod_def)

lemma DecodeMod_from_Some:
  "DecodeMod_from m cap p x i = Some (y, p') \<Longrightarrow> i \<le> 21
    \<Longrightarrow> p < p' \<and> int i + 7 * (p' - p) \<le> 28 \<and> 0 \<le> p \<and> p' \<le> cap"
proof (induction m cap p x i rule: DecodeMod_from.induct)
  case (1 m cap p x i)
  have ib: "in_bounds cap p 1"
    using "1.prems" by (subst (asm) DecodeMod_from.simps) (simp split: if_splits)
  show ?case
  proof (cases "(ucast (m p) :: u32) < 128")
    case True
    then have "p' = p + 1"
      using "1.prems" ib by (subst (asm) DecodeMod_from.simps) simp
    then show ?thesis
      using ib "1.prems"(2) by (simp add: in_bounds_def)
  next
    case False
    then have rec: "DecodeMod_from m cap (p + 1) (x + push_bit i (ucast (m p))) (i + 7) = Some (y, p')"
      using "1.prems" ib by (subst (asm) DecodeMod_from.simps) simp
    show ?thesis
    proof (cases "i + 7 \<le> 21")
      case True
      from "1.IH" [OF "1.prems"(2) ib False rec True] show ?thesis
        using ib by (simp add: in_bounds_def)
    next
      case False
      then have "p' = p + 1"
        using rec by (subst (asm) DecodeMod_from.simps) simp
      then show ?thesis
        using ib "1.prems"(2) by (simp add: in_bounds_def)
    qed
  qed
qed

lemma DecodeMod_Some:
  "DecodeMod m cap p = Some (x, p') \<Longrightarrow> p < p' \<and> p' \<le> p + 4 \<and> 0 \<le> p \<and> p' \<le> cap"
  using DecodeMod_from_Some [of m cap p 0 0 x p'] by (simp add: DecodeMod_def)

lemma DecodeMod_safe: "in_bounds cap p 4 \<Longrightarrow> \<exists>x p'. DecodeMod m cap p = Some (x, p')"
proof -
  assume "in_bounds cap p 4"
  moreover have "mod_count m p \<le> 4"
    by (simp add: mod_count_def)
  ultimately have "in_bounds cap p (int (mod_count m p))"
    by (simp add: in_bounds_def)
  from DecodeMod_value [OF this] show ?thesis
    by blast
qed

lemma read_run_Some:
  assumes "read_run im icap token ip = Some (run, ip1)" and "32 \<le> token"
  shows "1 \<le> run \<and> ip \<le> ip1 \<and> ip1 \<le> ip + 4"
proof (cases "drop_bit 5 token = 7")
  case True
  then obtain x where "DecodeMod im icap ip = Some (x, ip1)" "run = 7 + uint x"
    using assms(1) by (auto simp: read_run_def split: option.splits)
  then show ?thesis
    using DecodeMod_Some [of im icap ip x ip1] by simp
next
  case False
  then have "run = drop_bit 5 token" "ip1 = ip"
    using assms(1) by (simp_all add: read_run_def)
  moreover have "1 \<le> token div 32"
    using assms(2) by simp
  ultimately show ?thesis
    by (simp add: drop_bit_eq_div)
qed

lemma read_len_Some:
  assumes "read_len im icap token ip = Some (len, ip1)"
  shows "4 \<le> len \<and> ip \<le> ip1 \<and> ip1 \<le> ip + 4"
proof -
  have nn: "0 \<le> token AND 15"
    by simp
  show ?thesis
  proof (cases "(token AND 15) + MIN_MATCH = 15 + MIN_MATCH")
    case True
    then obtain x where "DecodeMod im icap ip = Some (x, ip1)" "len = 15 + MIN_MATCH + uint x"
      using assms by (auto simp: read_len_def split: option.splits)
    then show ?thesis
      using DecodeMod_Some [of im icap ip x ip1] by (simp add: MIN_MATCH_def)
  next
    case False
    then have "len = (token AND 15) + MIN_MATCH" "ip1 = ip"
      using assms by (simp_all add: read_len_def)
    then show ?thesis
      using nn by (simp add: MIN_MATCH_def)
  qed
qed

lemma literal_phase_props:
  assumes "literal_phase im icap in_len om ocap out_len token ip op = Some r"
  shows "case r of
           Stop_error om' \<Rightarrow> True
         | Stop_end om' ip' op' \<Rightarrow> op < op' \<and> op' \<le> out_len \<and> ip' = in_len \<and> ip < ip'
         | Continue om' ip' op' \<Rightarrow>
             (token < 32 \<and> op' = op \<and> ip' = ip \<and> om' = om)
             \<or> (32 \<le> token \<and> op < op' \<and> op' \<le> out_len \<and> ip < ip' \<and> ip' < in_len)"
proof (cases "32 \<le> token")
  case False
  then show ?thesis
    using assms by (auto simp: literal_phase_def)
next
  case True
  then obtain run ip1 where rr: "read_run im icap token ip = Some (run, ip1)"
    using assms by (auto simp: literal_phase_def split: option.splits)
  note b = read_run_Some [OF rr True]
  show ?thesis
    using assms True rr b
    by (auto simp: literal_phase_def split: option.splits if_splits)
qed

lemma match_phase_props:
  assumes "match_phase im icap om ocap out_len token ip op = Some r"
  shows "case r of
           Stop_error om' \<Rightarrow> True
         | Stop_end om' ip' op' \<Rightarrow> False
         | Continue om' ip' op' \<Rightarrow> op + 4 \<le> op' \<and> op' \<le> out_len \<and> ip + 2 \<le> ip' \<and> ip' \<le> ip + 6"
proof -
  obtain len ip1 where rl: "read_len im icap token ip = Some (len, ip1)"
    using assms by (auto simp: match_phase_def split: option.splits)
  note b = read_len_Some [OF rl]
  show ?thesis
    using assms rl b
    by (auto simp: match_phase_def Let_def split: option.splits if_splits)
qed

lemma Decompress_loop_le:
  "0 \<le> op \<Longrightarrow> op \<le> out_len
    \<Longrightarrow> Decompress_loop im icap in_len ocap out_len om ip op = Some (n, om')
    \<Longrightarrow> n = - 1 \<or> (op \<le> n \<and> n \<le> out_len)"
proof (induction im icap in_len ocap out_len om ip op rule: Decompress_loop.induct)
  case (1 im icap in_len ocap out_len om ip op)
  show ?case
  proof (cases "ip < in_len")
    case False
    then show ?thesis
      using "1.prems" by (subst (asm) Decompress_loop.simps) (auto split: if_splits)
  next
    case True
    then have ib: "in_bounds icap ip 1"
      using "1.prems"(3) by (subst (asm) Decompress_loop.simps) (auto split: if_splits)
    obtain r where lit: "literal_phase im icap in_len om ocap out_len (uint (im ip)) (ip + 1) op = Some r"
      using "1.prems"(3) True ib by (subst (asm) Decompress_loop.simps) (auto split: option.splits)
    note lp = literal_phase_props [OF lit]
    show ?thesis
    proof (cases r)
      case (Stop_error om1)
      then show ?thesis
        using "1.prems"(3) True ib lit by (subst (asm) Decompress_loop.simps) auto
    next
      case (Stop_end om1 ip1 op1)
      then show ?thesis
        using "1.prems" True ib lit lp by (subst (asm) Decompress_loop.simps) auto
    next
      case (Continue om1 ip1 op1)
      then obtain r2 where mat: "match_phase im icap om1 ocap out_len (uint (im ip)) ip1 op1 = Some r2"
        using "1.prems"(3) True ib lit by (subst (asm) Decompress_loop.simps) (auto split: option.splits)
      note mp = match_phase_props [OF mat]
      show ?thesis
      proof (cases r2)
        case (Stop_error om2)
        then show ?thesis
          using "1.prems"(3) True ib lit Continue mat by (subst (asm) Decompress_loop.simps) auto
      next
        case (Stop_end om2 ip2 op2)
        then show ?thesis
          using mp by simp
      next
        case c2: (Continue om2 ip2 op2)
        then have rec: "Decompress_loop im icap in_len ocap out_len om2 ip2 op2 = Some (n, om')"
          using "1.prems"(3) True ib lit Continue mat by (subst (asm) Decompress_loop.simps) auto
        have "op \<le> op1" "op1 \<le> op2" "op2 \<le> out_len"
          using lp mp Continue c2 "1.prems" by auto
        with "1.IH" [OF True ib lit Continue mat c2 _ _ rec] "1.prems"(1) show ?thesis
          by auto
      qed
    qed
  qed
qed

lemma WildCopy_chk_from_safe:
  "0 \<le> d \<Longrightarrow> 0 \<le> s \<Longrightarrow> 0 \<le> i \<Longrightarrow> d + n + 7 \<le> ocap
    \<Longrightarrow> s + n + 7 \<le> (case src of Input \<Rightarrow> icap | Output \<Rightarrow> ocap)
    \<Longrightarrow> \<exists>om'. WildCopy_chk_from src im icap om ocap d s n i = Some om'"
proof (induction src im icap om ocap d s n i rule: WildCopy_chk_from.induct)
  case (1 src im icap om ocap d s n i)
  show ?case
  proof (cases "i < n")
    case False
    then show ?thesis
      by (subst WildCopy_chk_from.simps) simp
  next
    case True
    then obtain om1 where c: "Copy64_chk src im icap om ocap (d + i) (s + i) = Some om1"
      using "1.prems" by (auto simp: Copy64_chk_def src_ok_def in_bounds_def split: source.splits)
    from "1.IH" [OF True c] "1.prems" obtain om' where
      "WildCopy_chk_from src im icap om1 ocap d s n (i + 8) = Some om'"
      by auto
    then show ?thesis
      using True c by (subst WildCopy_chk_from.simps) simp
  qed
qed

lemma WildCopy_chk_safe:
  assumes "0 \<le> d" and "0 \<le> s" and "1 \<le> n" and "d + n + 7 \<le> ocap"
    and "s + n + 7 \<le> (case src of Input \<Rightarrow> icap | Output \<Rightarrow> ocap)"
  shows "\<exists>om'. WildCopy_chk src im icap om ocap d s n = Some om'"
proof -
  obtain om1 where c: "Copy64_chk src im icap om ocap d s = Some om1"
    using assms by (auto simp: Copy64_chk_def src_ok_def in_bounds_def split: source.splits)
  from WildCopy_chk_from_safe [OF assms(1,2) _ assms(4,5), of 8 im om1] show ?thesis
    using c by (simp add: WildCopy_chk_def)
qed

lemma copy_tail_safe:
  "4 \<le> len \<Longrightarrow> 0 \<le> cp \<Longrightarrow> cp \<le> op \<Longrightarrow> op + (len - 4) \<le> ocap
    \<Longrightarrow> \<exists>om'. copy_tail om ocap op cp len = Some om'"
proof (induction om ocap op cp len rule: copy_tail.induct)
  case (1 om ocap op cp len)
  show ?case
  proof (cases "len = 4")
    case True
    then show ?thesis
      by (subst copy_tail.simps) simp
  next
    case False
    then have gt: "\<not> len < 4"
      using "1.prems" by simp
    obtain om1 where c: "copy_byte om ocap op cp = Some om1"
      using "1.prems" False by (auto simp: copy_byte_def in_bounds_def)
    from "1.IH" [OF False gt c] "1.prems" False obtain om' where
      "copy_tail om1 ocap (op + 1) (cp + 1) (len - 1) = Some om'"
      by auto
    then show ?thesis
      using False gt c by (subst copy_tail.simps) simp
  qed
qed

lemma copy_short_safe:
  assumes "4 \<le> len" and "0 \<le> cp" and "cp \<le> op" and "op + len \<le> ocap"
  shows "\<exists>om'. copy_short om ocap op cp len = Some om'"
proof -
  have b: "\<And>k m. 0 \<le> k \<Longrightarrow> k < 4 \<Longrightarrow> copy_byte m ocap (op + k) (cp + k) = Some (m(op + k := m (cp + k)))"
    using assms by (auto simp: copy_byte_def in_bounds_def)
  obtain o1 where o1: "copy_byte om ocap op cp = Some o1"
    using b [of 0 om] by simp
  obtain o2 where o2: "copy_byte o1 ocap (op + 1) (cp + 1) = Some o2"
    using b [of 1 o1] by simp
  obtain o3 where o3: "copy_byte o2 ocap (op + 2) (cp + 2) = Some o3"
    using b [of 2 o2] by simp
  obtain o4 where o4: "copy_byte o3 ocap (op + 3) (cp + 3) = Some o4"
    using b [of 3 o3] by simp
  from copy_tail_safe [of len "cp + 4" "op + 4" ocap o4] assms obtain om' where
    "copy_tail o4 ocap (op + 4) (cp + 4) len = Some om'"
    by auto
  then show ?thesis
    using o1 o2 o3 o4 by (simp add: copy_short_def)
qed

lemma read_run_safe:
  assumes "in_bounds icap ip 4"
  shows "\<exists>run ip1. read_run im icap token ip = Some (run, ip1)"
  using DecodeMod_safe [OF assms, of im] by (cases "drop_bit 5 token = 7") (auto simp: read_run_def)

lemma read_len_safe:
  assumes "in_bounds icap ip 4"
  shows "\<exists>len ip1. read_len im icap token ip = Some (len, ip1)"
  using DecodeMod_safe [OF assms, of im]
  by (cases "(token AND 15) + MIN_MATCH = 15 + MIN_MATCH") (auto simp: read_len_def)

lemma literal_phase_safe:
  assumes "0 \<le> ip" and "ip \<le> in_len" and "in_len + EXCESS \<le> icap" and "0 \<le> op"
    and "out_len + EXCESS \<le> ocap"
  shows "\<exists>r. literal_phase im icap in_len om ocap out_len token ip op = Some r"
proof (cases "32 \<le> token")
  case False
  then show ?thesis
    by (simp add: literal_phase_def)
next
  case True
  have "in_bounds icap ip 4"
    using assms by (simp add: in_bounds_def EXCESS_def)
  from read_run_safe [OF this, of im token] obtain run ip1 where
    rr: "read_run im icap token ip = Some (run, ip1)"
    by blast
  note b = read_run_Some [OF rr True]
  show ?thesis
  proof (cases "out_len - op < run \<or> in_len - ip1 < run")
    case True
    then show ?thesis
      using \<open>32 \<le> token\<close> rr by (simp add: literal_phase_def)
  next
    case False
    from WildCopy_chk_safe [where d = op and s = ip1 and n = run and ocap = ocap and src = Input and icap = icap and im = im and om = om] obtain om' where
      "WildCopy_chk Input im icap om ocap op ip1 run = Some om'"
      using assms b False by (auto simp: EXCESS_def)
    then show ?thesis
      using \<open>32 \<le> token\<close> rr False by (simp add: literal_phase_def)
  qed
qed

lemma match_phase_safe:
  assumes "0 \<le> ip" and "ip \<le> in_len" and "in_len + EXCESS \<le> icap" and "0 \<le> op"
    and "out_len + EXCESS \<le> ocap"
  shows "\<exists>r. match_phase im icap om ocap out_len token ip op = Some r"
proof -
  have "in_bounds icap ip 4"
    using assms by (simp add: in_bounds_def EXCESS_def)
  from read_len_safe [OF this, of im token] obtain len ip1 where
    rl: "read_len im icap token ip = Some (len, ip1)"
    by blast
  note b = read_len_Some [OF rl]
  obtain w where w: "Load16_chk im icap ip1 = Some w"
    using assms b by (simp add: Load16_chk_def in_bounds_def EXCESS_def)
  define dist where "dist = push_bit 12 (token AND 16) + uint w"
  have d0: "0 \<le> dist"
    unfolding dist_def by simp
  show ?thesis
  proof (cases "out_len - op < len \<or> op < dist")
    case True
    then show ?thesis
      using rl w by (auto simp: match_phase_def Let_def dist_def)
  next
    case False
    show ?thesis
    proof (cases "8 \<le> dist")
      case True
      from WildCopy_chk_safe [where d = op and s = "op - dist" and n = len and ocap = ocap and src = Output and icap = icap and im = im and om = om] obtain om' where
        "WildCopy_chk Output im icap om ocap op (op - dist) len = Some om'"
        using assms b False d0 by (auto simp: EXCESS_def)
      then show ?thesis
        using rl w False True by (auto simp: match_phase_def Let_def dist_def)
    next
      case short: False
      from copy_short_safe [of len "op - dist" op ocap om] obtain om' where
        "copy_short om ocap op (op - dist) len = Some om'"
        using assms b False d0 by (auto simp: EXCESS_def)
      then show ?thesis
        using rl w False short by (auto simp: match_phase_def Let_def dist_def)
    qed
  qed
qed

lemma Decompress_loop_safe:
  "0 \<le> ip \<Longrightarrow> 0 \<le> op \<Longrightarrow> in_len + EXCESS \<le> icap \<Longrightarrow> out_len + EXCESS \<le> ocap
    \<Longrightarrow> \<exists>res. Decompress_loop im icap in_len ocap out_len om ip op = Some res"
proof (induction im icap in_len ocap out_len om ip op rule: Decompress_loop.induct)
  case (1 im icap in_len ocap out_len om ip op)
  show ?case
  proof (cases "ip < in_len")
    case False
    then show ?thesis
      by (subst Decompress_loop.simps) simp
  next
    case True
    then have ib: "in_bounds icap ip 1"
      using "1.prems" by (simp add: in_bounds_def EXCESS_def)
    from literal_phase_safe [of "ip + 1" in_len icap op out_len ocap im om "uint (im ip)"]
    obtain r where lit: "literal_phase im icap in_len om ocap out_len (uint (im ip)) (ip + 1) op = Some r"
      using "1.prems" True by auto
    note lp = literal_phase_props [OF lit]
    show ?thesis
    proof (cases r)
      case (Stop_error om1)
      then show ?thesis
        using True ib lit by (subst Decompress_loop.simps) simp
    next
      case (Stop_end om1 ip1 op1)
      then show ?thesis
        using True ib lit by (subst Decompress_loop.simps) simp
    next
      case (Continue om1 ip1 op1)
      then have st: "0 \<le> ip1" "ip1 \<le> in_len" "0 \<le> op1"
        using lp "1.prems" True by auto
      from match_phase_safe [OF st(1,2) "1.prems"(3) st(3) "1.prems"(4), of im om1 "uint (im ip)"]
      obtain r2 where mat: "match_phase im icap om1 ocap out_len (uint (im ip)) ip1 op1 = Some r2"
        by auto
      note mp = match_phase_props [OF mat]
      show ?thesis
      proof (cases r2)
        case (Stop_error om2)
        then show ?thesis
          using True ib lit Continue mat by (subst Decompress_loop.simps) simp
      next
        case (Stop_end om2 ip2 op2)
        then show ?thesis
          using mp by simp
      next
        case c2: (Continue om2 ip2 op2)
        then have "0 \<le> ip2" "0 \<le> op2"
          using mp st by auto
        from "1.IH" [OF True ib lit Continue mat c2 this "1.prems"(3,4)] show ?thesis
          using True ib lit Continue mat c2 by (subst Decompress_loop.simps) simp
      qed
    qed
  qed
qed

text \<open>
  Claim C6, as amended. \<open>out_len\<close> is a capacity, not a promise: whenever \<open>Decompress\<close>
  returns success (a non-negative result) for a non-negative \<open>out_len\<close>, the number of
  bytes written is at most \<open>out_len\<close>.
\<close>

theorem Decompress_written_le:
  assumes "0 \<le> out_len" and "Decompress im icap in_len om ocap out_len = Some (n, om')"
    and "0 \<le> n"
  shows "n \<le> out_len"
  using Decompress_loop_le [of 0 out_len im icap in_len ocap om 0 n om'] assms
  by (simp add: Decompress_def)

theorem Decompress_written_le_witness:
  "(0 :: int) \<le> 20
    \<and> map_option fst (Decompress (mem_of [35, 97, 1, 0, 32, 98]) 22 6 (\<lambda>_. 0) 36 20) = Some 9
    \<and> (9 :: int) \<le> 20"
  using Decompress_written_le [of 20 "mem_of [35, 97, 1, 0, 32, 98]" 22 6 "\<lambda>_. 0" 36 9
      "snd (the (Decompress (mem_of [35, 97, 1, 0, 32, 98]) 22 6 (\<lambda>_. 0) 36 20))"]
  by (simp add: ulz_loops ulz_defs mem_of_def)

text \<open>
  The claim as it stands fails on the empty stream with five bytes declared: the call
  succeeds and has written nothing.
\<close>

theorem Decompress_written_less:
  "Decompress (\<lambda>_. 0) 16 0 (\<lambda>_. 0) 21 5 = Some (0, \<lambda>_. 0)"
  by (simp add: ulz_loops ulz_defs)

text \<open>
  Claim C10. The stream \<open>0, 0, 0\<close> is one match token of length four whose seventeen
  distance bits are all zero. With no byte produced yet the range check \<open>(op-out)<dist\<close>
  is \<open>0 < 0\<close>: the match phase goes on to the copy (of four bytes of the output buffer
  onto themselves), and the call returns four bytes written instead of the error result.
\<close>

theorem Decompress_accepts_distance_0:
  "push_bit 12 (0 AND 16) + uint (UnalignedLoad16 (\<lambda>_. 0) 1) = 0
    \<and> map_option (\<lambda>r. case r of Continue om ip op \<Rightarrow> (ip, op) | _ \<Rightarrow> (- 1, - 1))
        (match_phase (\<lambda>_. 0) 19 (\<lambda>_. 7) 20 4 0 1 0) = Some (3, 4)
    \<and> map_option fst (Decompress (\<lambda>_. 0) 19 3 (\<lambda>_. 7) 20 4) = Some 4"
  by (simp add: ulz_loops ulz_defs)

text \<open>
  Claim C8, as amended. The decoder checks a literal run against the input and the
  output that remain, and a match against the output that remains and the bytes produced,
  before it copies. It does not check the reads of \<open>DecodeMod\<close> and of the two distance
  bytes, and \<open>WildCopy\<close> moves whole eight-byte blocks: these accesses can lie at offsets
  \<open>in_len\<close> and above, or \<open>out_len\<close> and above, but never outside the guard region of
  \<open>EXCESS\<close> bytes behind each buffer. For every input, with \<open>in_len + EXCESS\<close> bytes
  allocated behind \<open>in\<close> and \<open>out_len + EXCESS\<close> bytes behind \<open>out\<close>, no access of
  \<open>Decompress\<close> leaves the allocation.
\<close>

theorem Decompress_within_guard:
  assumes "in_len + EXCESS \<le> icap" and "out_len + EXCESS \<le> ocap"
  shows "Decompress im icap in_len om ocap out_len \<noteq> None"
  using Decompress_loop_safe [of 0 0 in_len icap out_len ocap im om] assms
  by (auto simp: Decompress_def)

theorem Decompress_within_guard_witness:
  "(1 :: int) + EXCESS \<le> 17 \<and> (0 :: int) + EXCESS \<le> 16
    \<and> Decompress ((\<lambda>_. 0)(0 := 224)) 17 1 (\<lambda>_. 0) 16 0 \<noteq> None"
  using Decompress_within_guard [of 1 17 0 16 "(\<lambda>_. 0)(0 := 224)" "\<lambda>_. 0"]
  by (simp add: EXCESS_def)

text \<open>
  The claim as it stands fails on the one-byte stream \<open>224\<close>, a token that announces a
  literal run with an extension: \<open>DecodeMod\<close> reads the byte at offset \<open>1 = in_len\<close>. With
  exactly \<open>in_len\<close> bytes allocated that read leaves the allocation; with the guard region
  allocated the call returns the error result after the read.
\<close>

theorem Decompress_reads_past_in_len:
  "Decompress ((\<lambda>_. 0)(0 := 224)) 1 1 (\<lambda>_. 0) 16 0 = None
    \<and> Decompress ((\<lambda>_. 0)(0 := 224)) 17 1 (\<lambda>_. 0) 16 0 = Some (- 1, \<lambda>_. 0)"
  by (simp add: ulz_loops ulz_defs word_le_nat_alt word_less_nat_alt)

subsection \<open>The decoder on a truncated stream\<close>

text \<open>Two runs of \<open>DecodeMod\<close> on memories that agree below \<open>lim\<close>.\<close>

lemma DecodeMod_from_agree:
  "DecodeMod_from mA capA p x i = Some (yA, pA) \<Longrightarrow> DecodeMod_from mB capB p x i = Some (yB, pB)
    \<Longrightarrow> (\<forall>a. 0 \<le> a \<and> a < lim \<longrightarrow> mA a = mB a)
    \<Longrightarrow> pA \<le> lim \<or> pB \<le> lim \<Longrightarrow> yA = yB \<and> pA = pB"
proof (induction mA capA p x i arbitrary: rule: DecodeMod_from.induct)
  case (1 mA capA p x i)
  show ?case
  proof (cases "i \<le> 21")
    case False
    then show ?thesis
      using "1.prems"(1,2) by (subst (asm) (1 2) DecodeMod_from.simps) simp
  next
    case True
    have ibA: "in_bounds capA p 1"
      using "1.prems"(1) True by (subst (asm) DecodeMod_from.simps) (simp split: if_splits)
    have ibB: "in_bounds capB p 1"
      using "1.prems"(2) True by (subst (asm) DecodeMod_from.simps) (simp split: if_splits)
    have "p < pA" "p < pB" "0 \<le> p"
      using DecodeMod_from_Some [OF "1.prems"(1) True] DecodeMod_from_Some [OF "1.prems"(2) True]
      by simp_all
    then have same: "mA p = mB p"
      using "1.prems"(3,4) by auto
    show ?thesis
    proof (cases "(ucast (mA p) :: u32) < 128")
      case small: True
      then show ?thesis
        using "1.prems"(1,2) True ibA ibB same
        by (subst (asm) (1 2) DecodeMod_from.simps) simp
    next
      case big: False
      have recA: "DecodeMod_from mA capA (p + 1) (x + push_bit i (ucast (mA p))) (i + 7) = Some (yA, pA)"
        using "1.prems"(1) True ibA big by (subst (asm) DecodeMod_from.simps) simp
      have recB: "DecodeMod_from mB capB (p + 1) (x + push_bit i (ucast (mA p))) (i + 7) = Some (yB, pB)"
        using "1.prems"(2) True ibB big same by (subst (asm) DecodeMod_from.simps) simp
      from "1.IH" [OF True ibA big recA recB "1.prems"(3,4)] show ?thesis .
    qed
  qed
qed

lemma DecodeMod_agree:
  "DecodeMod mA capA p = Some (yA, pA) \<Longrightarrow> DecodeMod mB capB p = Some (yB, pB)
    \<Longrightarrow> (\<forall>a. 0 \<le> a \<and> a < lim \<longrightarrow> mA a = mB a)
    \<Longrightarrow> pA \<le> lim \<or> pB \<le> lim \<Longrightarrow> yA = yB \<and> pA = pB"
  unfolding DecodeMod_def by (rule DecodeMod_from_agree)

lemma Decompress_loop_past:
  "in_len < ip \<Longrightarrow> Decompress_loop im icap in_len ocap out_len om ip op = Some (- 1, om)"
  by (subst Decompress_loop.simps) simp

lemma read_run_agree:
  assumes "read_run imA icapA t ip = Some (rA, iA)" and "read_run imB icapB t ip = Some (rB, iB)"
    and "\<forall>a. 0 \<le> a \<and> a < lim \<longrightarrow> imA a = imB a" and "iA \<le> lim \<or> iB \<le> lim"
  shows "rA = rB \<and> iA = iB"
proof (cases "drop_bit 5 t = 7")
  case False
  then show ?thesis
    using assms(1,2) by (simp add: read_run_def)
next
  case True
  then obtain xA xB where "DecodeMod imA icapA ip = Some (xA, iA)" "rA = 7 + uint xA"
    "DecodeMod imB icapB ip = Some (xB, iB)" "rB = 7 + uint xB"
    using assms(1,2) by (auto simp: read_run_def split: option.splits)
  then show ?thesis
    using DecodeMod_agree [of imA icapA ip xA iA imB icapB xB iB lim] assms(3,4) by simp
qed

lemma read_len_agree:
  assumes "read_len imA icapA t ip = Some (rA, iA)" and "read_len imB icapB t ip = Some (rB, iB)"
    and "\<forall>a. 0 \<le> a \<and> a < lim \<longrightarrow> imA a = imB a" and "iA \<le> lim \<or> iB \<le> lim"
  shows "rA = rB \<and> iA = iB"
proof (cases "(t AND 15) + MIN_MATCH = 15 + MIN_MATCH")
  case False
  then show ?thesis
    using assms(1,2) by (simp add: read_len_def)
next
  case True
  then obtain xA xB where "DecodeMod imA icapA ip = Some (xA, iA)" "rA = 15 + MIN_MATCH + uint xA"
    "DecodeMod imB icapB ip = Some (xB, iB)" "rB = 15 + MIN_MATCH + uint xB"
    using assms(1,2) by (auto simp: read_len_def split: option.splits)
  then show ?thesis
    using DecodeMod_agree [of imA icapA ip xA iA imB icapB xB iB lim] assms(3,4) by simp
qed

lemma literal_phase_agree:
  assumes A: "literal_phase imA icapA nA omA ocapA out_len t ip op = Some rA"
    and B: "literal_phase imB icapB nB omB ocapB out_len t ip op = Some rB"
    and agree: "\<forall>a. 0 \<le> a \<and> a < nA \<longrightarrow> imA a = imB a"
    and lt: "nA < nB" and ip: "ip \<le> nA" and ok: "\<forall>om. rB \<noteq> Stop_error om"
  shows "(\<exists>om. rA = Stop_error om)
    \<or> (\<exists>oa ob o1. rA = Stop_end oa nA o1 \<and> rB = Continue ob nA o1 \<and> op < o1 \<and> o1 \<le> out_len)
    \<or> (\<exists>oa ob i1 o1. rA = Continue oa i1 o1 \<and> rB = Continue ob i1 o1 \<and> ip \<le> i1 \<and> i1 \<le> nA
          \<and> op \<le> o1 \<and> (o1 = op \<or> o1 \<le> out_len))"
proof (cases "32 \<le> t")
  case False
  then show ?thesis
    using A B ip by (auto simp: literal_phase_def)
next
  case True
  obtain runA iA where rrA: "read_run imA icapA t ip = Some (runA, iA)"
    using A True by (auto simp: literal_phase_def split: option.splits)
  obtain runB iB where rrB: "read_run imB icapB t ip = Some (runB, iB)"
    using B True by (auto simp: literal_phase_def split: option.splits)
  note bA = read_run_Some [OF rrA True]
  show ?thesis
  proof (cases "out_len - op < runA \<or> nA - iA < runA")
    case True
    then show ?thesis
      using A \<open>32 \<le> t\<close> rrA by (auto simp: literal_phase_def)
  next
    case False
    then have "iA \<le> nA"
      using bA by simp
    from read_run_agree [OF rrA rrB agree] this have same: "runB = runA" "iB = iA"
      by simp_all
    obtain oa where wa: "WildCopy_chk Input imA icapA omA ocapA op iA runA = Some oa"
      using A \<open>32 \<le> t\<close> rrA False by (auto simp: literal_phase_def split: option.splits)
    have passB: "\<not> (out_len - op < runA \<or> nB - iA < runA)"
      using B \<open>32 \<le> t\<close> rrB same ok by (auto simp: literal_phase_def split: if_splits)
    obtain ob where wb: "WildCopy_chk Input imB icapB omB ocapB op iA runA = Some ob"
      using B \<open>32 \<le> t\<close> rrB same passB by (auto simp: literal_phase_def split: option.splits)
    have rA: "rA = (if nA \<le> iA + runA then Stop_end oa (iA + runA) (op + runA)
                   else Continue oa (iA + runA) (op + runA))"
      using A \<open>32 \<le> t\<close> rrA False wa by (auto simp: literal_phase_def split: if_splits)
    have rB: "rB = Continue ob (iA + runA) (op + runA)"
      using B \<open>32 \<le> t\<close> rrB same passB wb False lt
      by (auto simp: literal_phase_def split: if_splits)
    show ?thesis
      using rA rB False bA by auto
  qed
qed

lemma Load16_chk_agree:
  assumes "Load16_chk imA icapA a = Some wA" and "Load16_chk imB icapB a = Some wB"
    and "\<forall>a. 0 \<le> a \<and> a < lim \<longrightarrow> imA a = imB a" and "a + 2 \<le> lim"
  shows "wA = wB"
  using assms by (auto simp: Load16_chk_def UnalignedLoad16_def in_bounds_def split: if_splits)

lemma match_phase_agree:
  assumes A: "match_phase imA icapA omA ocapA out_len t ip op = Some rA"
    and B: "match_phase imB icapB omB ocapB out_len t ip op = Some rB"
    and agree: "\<forall>a. 0 \<le> a \<and> a < nA \<longrightarrow> imA a = imB a"
    and ok: "\<forall>om. rB \<noteq> Stop_error om"
  shows "(\<exists>om. rA = Stop_error om)
    \<or> (\<exists>oa i2 o2. rA = Continue oa i2 o2 \<and> nA < i2)
    \<or> (\<exists>oa ob i2 o2. rA = Continue oa i2 o2 \<and> rB = Continue ob i2 o2 \<and> i2 \<le> nA)"
proof -
  obtain lenA iA where rlA: "read_len imA icapA t ip = Some (lenA, iA)"
    using A by (auto simp: match_phase_def split: option.splits)
  obtain lenB iB where rlB: "read_len imB icapB t ip = Some (lenB, iB)"
    using B by (auto simp: match_phase_def split: option.splits)
  have shape: "(\<exists>om. rA = Stop_error om) \<or> (\<exists>oa o2. rA = Continue oa (iA + 2) o2)"
    using A rlA by (auto simp: match_phase_def Let_def split: option.splits if_splits)
  show ?thesis
  proof (cases "iA + 2 \<le> nA")
    case False
    then show ?thesis
      using shape by auto
  next
    case True
    from read_len_agree [OF rlA rlB agree] True have same: "lenB = lenA" "iB = iA"
      by simp_all
    show ?thesis
    proof (cases "out_len - op < lenA")
      case True
      then show ?thesis
        using A rlA by (auto simp: match_phase_def)
    next
      case False
      obtain wA where wA: "Load16_chk imA icapA iA = Some wA"
        using A rlA False by (auto simp: match_phase_def split: option.splits)
      obtain wB where wB: "Load16_chk imB icapB iA = Some wB"
        using B rlB same False by (auto simp: match_phase_def split: option.splits)
      have w: "wB = wA"
        using Load16_chk_agree [OF wA wB agree True] by simp
      have "\<exists>ob o2. rB = Continue ob (iA + 2) o2 \<and> o2 = op + lenA"
        using B rlB same False wB ok
        by (auto simp: match_phase_def Let_def split: option.splits if_splits)
      moreover have "(\<exists>om. rA = Stop_error om) \<or> (\<exists>oa. rA = Continue oa (iA + 2) (op + lenA))"
        using A rlA False wA
        by (auto simp: match_phase_def Let_def split: option.splits if_splits)
      ultimately show ?thesis
        using True by auto
    qed
  qed
qed

text \<open>Unfolding one round of the loop whose two phases are known.\<close>

lemma Decompress_loop_step:
  assumes "ip < in_len" and "in_bounds icap ip 1"
    and "literal_phase im icap in_len om ocap out_len (uint (im ip)) (ip + 1) op = Some (Continue om1 ip1 op1)"
    and "match_phase im icap om1 ocap out_len (uint (im ip)) ip1 op1 = Some (Continue om2 ip2 op2)"
  shows "Decompress_loop im icap in_len ocap out_len om ip op
    = Decompress_loop im icap in_len ocap out_len om2 ip2 op2"
  using assms by (subst Decompress_loop.simps) simp

lemma Decompress_loop_cases:
  assumes "Decompress_loop im icap in_len ocap out_len om ip op = Some (m, om')" and "ip < in_len"
  obtains (err) "m = - 1"
    | (stop) om1 where "literal_phase im icap in_len om ocap out_len (uint (im ip)) (ip + 1) op
        = Some (Stop_end om1 in_len m)"
    | (cont) om1 ip1 op1 om2 ip2 op2 where
        "literal_phase im icap in_len om ocap out_len (uint (im ip)) (ip + 1) op
          = Some (Continue om1 ip1 op1)"
        "match_phase im icap om1 ocap out_len (uint (im ip)) ip1 op1 = Some (Continue om2 ip2 op2)"
        "Decompress_loop im icap in_len ocap out_len om2 ip2 op2 = Some (m, om')"
proof -
  have ib: "in_bounds icap ip 1"
    using assms by (subst (asm) Decompress_loop.simps) (auto split: if_splits)
  obtain r where lit: "literal_phase im icap in_len om ocap out_len (uint (im ip)) (ip + 1) op = Some r"
    using assms ib by (subst (asm) Decompress_loop.simps) (auto split: option.splits)
  note lp = literal_phase_props [OF lit]
  show thesis
  proof (cases r)
    case (Stop_error om1)
    then have "m = - 1"
      using assms ib lit by (subst (asm) Decompress_loop.simps) auto
    then show ?thesis
      by (rule err)
  next
    case (Stop_end om1 ip1 op1)
    then have "m = op1" "ip1 = in_len"
      using assms ib lit lp by (subst (asm) Decompress_loop.simps, auto)+
    then show ?thesis
      using stop lit Stop_end by simp
  next
    case (Continue om1 ip1 op1)
    then obtain r2 where mat: "match_phase im icap om1 ocap out_len (uint (im ip)) ip1 op1 = Some r2"
      using assms ib lit by (subst (asm) Decompress_loop.simps) (auto split: option.splits)
    note mp = match_phase_props [OF mat]
    show ?thesis
    proof (cases r2)
      case (Stop_error om2)
      then have "m = - 1"
        using assms ib lit Continue mat by (subst (asm) Decompress_loop.simps) auto
      then show ?thesis
        by (rule err)
    next
      case (Stop_end om2 ip2 op2)
      then show ?thesis
        using mp by simp
    next
      case c2: (Continue om2 ip2 op2)
      then have "Decompress_loop im icap in_len ocap out_len om2 ip2 op2 = Some (m, om')"
        using assms ib lit Continue mat by (subst (asm) Decompress_loop.simps) auto
      then show ?thesis
        using cont lit Continue mat c2 by simp
    qed
  qed
qed

lemma Decompress_loop_progress:
  assumes "Decompress_loop im icap in_len ocap out_len om ip op = Some (m, om')" and "m \<noteq> - 1"
    and "0 \<le> op" and "op \<le> out_len" and "ip < in_len"
  shows "op < m"
  using assms(1,5)
proof (cases rule: Decompress_loop_cases)
  case err
  then show ?thesis
    using assms(2) by simp
next
  case (stop om1)
  from literal_phase_props [OF this] show ?thesis
    by simp
next
  case (cont om1 ip1 op1 om2 ip2 op2)
  have "op \<le> op1" "op1 \<le> out_len"
    using literal_phase_props [OF cont(1)] assms(4) by auto
  moreover have "op1 + 4 \<le> op2" "op2 \<le> out_len"
    using match_phase_props [OF cont(2)] by auto
  moreover have "op2 \<le> m"
    using Decompress_loop_le [OF _ _ cont(3)] assms(2,3) calculation by auto
  ultimately show ?thesis
    by simp
qed

text \<open>
  The decoder on a proper prefix of a stream. Run \<open>B\<close> has the whole stream of \<open>nB\<close> bytes
  and succeeds with \<open>mB\<close> bytes; run \<open>A\<close> has its first \<open>nA < nB\<close> bytes, followed by anything.
  From the same pointers, run \<open>A\<close> ends in the error result or with fewer bytes.
\<close>

lemma Decompress_loop_prefix:
  "Decompress_loop imA icapA nA ocapA out_len omA ip op = Some (mA, omA')
    \<Longrightarrow> Decompress_loop imB icapB nB ocapB out_len omB ip op = Some (mB, omB')
    \<Longrightarrow> mB \<noteq> - 1 \<Longrightarrow> \<forall>a. 0 \<le> a \<and> a < nA \<longrightarrow> imA a = imB a \<Longrightarrow> nA < nB
    \<Longrightarrow> 0 \<le> ip \<Longrightarrow> ip \<le> nA \<Longrightarrow> 0 \<le> op \<Longrightarrow> op \<le> out_len
    \<Longrightarrow> mA = - 1 \<or> mA < mB"
proof (induction imA icapA nA ocapA out_len omA ip op arbitrary: omB
    rule: Decompress_loop.induct)
  case (1 imA icapA nA ocapA out_len omA ip op)
  note A = "1.prems"(1) and B = "1.prems"(2) and ok = "1.prems"(3) and agree = "1.prems"(4)
    and lt = "1.prems"(5)
  show ?case
  proof (cases "ip < nA")
    case False
    then have "mA = op"
      using A "1.prems"(7) by (subst (asm) Decompress_loop.simps) auto
    moreover have "op < mB"
      using Decompress_loop_progress [OF B ok "1.prems"(8,9)] False lt "1.prems"(7) by simp
    ultimately show ?thesis
      by simp
  next
    case True
    then have tok: "imA ip = imB ip" and ltB: "ip < nB"
      using agree "1.prems"(6) lt by auto
    from B ltB show ?thesis
    proof (cases rule: Decompress_loop_cases)
      case err
      then show ?thesis
        using ok by simp
    next
      case (stop ob1)
      from A True show ?thesis
      proof (cases rule: Decompress_loop_cases)
        case err
        then show ?thesis
          by simp
      next
        case stopA: (stop oa1)
        from literal_phase_agree [OF stopA stop [folded tok] agree lt] True show ?thesis
          by auto
      next
        case contA: (cont oa1 ip1 op1 oa2 ip2 op2)
        from literal_phase_agree [OF contA(1) stop [folded tok] agree lt] True show ?thesis
          by auto
      qed
    next
      case (cont ob1 ipB1 opB1 ob2 ipB2 opB2)
      note litB = cont(1) [folded tok] and matB = cont(2) [folded tok]
      from A True show ?thesis
      proof (cases rule: Decompress_loop_cases)
        case err
        then show ?thesis
          by simp
      next
        case stopA: (stop oa1)
        from literal_phase_agree [OF stopA litB agree lt] True
        have st: "ipB1 = nA" "opB1 = mA" "op < mA" "mA \<le> out_len"
          by auto
        have "opB1 + 4 \<le> opB2" "opB2 \<le> out_len"
          using match_phase_props [OF matB] by auto
        moreover have "opB2 \<le> mB"
          using Decompress_loop_le [OF _ _ cont(3)] ok calculation st "1.prems"(8) by auto
        ultimately show ?thesis
          using st by simp
      next
        case contA: (cont oa1 ip1 op1 oa2 ip2 op2)
        from literal_phase_agree [OF contA(1) litB agree lt] True
        have st: "ipB1 = ip1" "opB1 = op1" "ip + 1 \<le> ip1" "ip1 \<le> nA" "op \<le> op1"
          "op1 = op \<or> op1 \<le> out_len"
          by auto
        from match_phase_agree [OF contA(2) matB [unfolded st(1,2)] agree]
        consider (past) "nA < ip2" | (same) "ipB2 = ip2" "opB2 = op2" "ip2 \<le> nA"
          by auto
        then show ?thesis
        proof cases
          case past
          then have "mA = - 1"
            using contA(3) Decompress_loop_past [of nA ip2 imA icapA ocapA out_len oa2 op2]
            by simp
          then show ?thesis
            by simp
        next
          case same
          have ib: "in_bounds icapA ip 1"
            using A True by (subst (asm) Decompress_loop.simps) (auto split: if_splits)
          have mp: "op1 + 4 \<le> op2" "op2 \<le> out_len" "ip1 + 2 \<le> ip2"
            using match_phase_props [OF contA(2)] by auto
          have "0 \<le> ip2" "0 \<le> op2"
            using mp st "1.prems"(6,8) by auto
          from "1.IH" [OF True ib contA(1) refl contA(2) refl contA(3)
              cont(3) [unfolded same(1,2)] ok agree lt this(1) same(3) this(2) mp(2)]
          show ?thesis .
        qed
      qed
    qed
  qed
qed

subsection \<open>The encoders: memory, match lengths and loop invariants\<close>

lemma digits_eq:
  assumes "0 \<le> a0" and "a0 < 256" and "0 \<le> b0" and "b0 < 256" and "a0 + 256 * x = b0 + 256 * y"
  shows "a0 = b0 \<and> x = (y :: int)"
proof -
  have "(a0 + 256 * x) mod 256 = a0" "(b0 + 256 * y) mod 256 = b0"
    using assms(1-4) by simp_all
  then have "a0 = b0"
    using assms(5) by simp
  then show ?thesis
    using assms(5) by simp
qed

lemma uint_load32:
  "uint (UnalignedLoad32 m a)
    = uint (m a) + 256 * (uint (m (a + 1)) + 256 * (uint (m (a + 2)) + 256 * uint (m (a + 3))))"
proof -
  have b: "\<And>w :: u8. 0 \<le> uint w \<and> uint w < 256"
    using unsigned_less [where ?'a = int and ?'b = 8] by simp
  have "0 \<le> uint (m a) + 256 * (uint (m (a + 1)) + 256 * (uint (m (a + 2)) + 256 * uint (m (a + 3))))"
    using b [of "m a"] b [of "m (a + 1)"] b [of "m (a + 2)"] b [of "m (a + 3)"] by simp
  moreover have "uint (m a) + 256 * (uint (m (a + 1)) + 256 * (uint (m (a + 2)) + 256 * uint (m (a + 3))))
      < 4294967296"
    using b [of "m a"] b [of "m (a + 1)"] b [of "m (a + 2)"] b [of "m (a + 3)"] by simp
  moreover have "UnalignedLoad32 m a = word_of_int (uint (m a) + 256 * (uint (m (a + 1)) + 256 * (uint (m (a + 2)) + 256 * uint (m (a + 3)))))"
    by (simp add: UnalignedLoad32_def word_rcat_def)
  ultimately show ?thesis
    by (simp only: uint_word_of_int_eq take_bit_eq_mod) simp
qed

lemma load32_inj:
  "UnalignedLoad32 m a = UnalignedLoad32 m b
    \<longleftrightarrow> m a = m b \<and> m (a + 1) = m (b + 1) \<and> m (a + 2) = m (b + 2) \<and> m (a + 3) = m (b + 3)"
proof
  assume "UnalignedLoad32 m a = UnalignedLoad32 m b"
  then have eq: "uint (UnalignedLoad32 m a) = uint (UnalignedLoad32 m b)"
    by simp
  have b: "\<And>w :: u8. 0 \<le> uint w \<and> uint w < 256"
    using unsigned_less [where ?'a = int and ?'b = 8] by simp
  from digits_eq [OF _ _ _ _ eq [unfolded uint_load32]] b
  have 0: "uint (m a) = uint (m b)"
    and r0: "uint (m (a + 1)) + 256 * (uint (m (a + 2)) + 256 * uint (m (a + 3)))
      = uint (m (b + 1)) + 256 * (uint (m (b + 2)) + 256 * uint (m (b + 3)))"
    by simp_all
  from digits_eq [OF _ _ _ _ r0] b
  have 1: "uint (m (a + 1)) = uint (m (b + 1))"
    and r1: "uint (m (a + 2)) + 256 * uint (m (a + 3)) = uint (m (b + 2)) + 256 * uint (m (b + 3))"
    by simp_all
  from digits_eq [OF _ _ _ _ r1] b
  have 2: "uint (m (a + 2)) = uint (m (b + 2))" and 3: "uint (m (a + 3)) = uint (m (b + 3))"
    by simp_all
  from 0 1 2 3
  show "m a = m b \<and> m (a + 1) = m (b + 1) \<and> m (a + 2) = m (b + 2) \<and> m (a + 3) = m (b + 3)"
    by (simp add: word_uint_eq_iff)
next
  assume "m a = m b \<and> m (a + 1) = m (b + 1) \<and> m (a + 2) = m (b + 2) \<and> m (a + 3) = m (b + 3)"
  then show "UnalignedLoad32 m a = UnalignedLoad32 m b"
    by (simp add: UnalignedLoad32_def)
qed

lemma match_len_props:
  "len \<le> lim \<Longrightarrow> len \<le> match_len inm s p len lim \<and> match_len inm s p len lim \<le> lim
    \<and> (\<forall>i. len \<le> i \<and> i < match_len inm s p len lim \<longrightarrow> inm (s + i) = inm (p + i))"
proof (induction inm s p len lim rule: match_len.induct)
  case (1 inm s p len lim)
  show ?case
  proof (cases "len < lim \<and> inm (s + len) = inm (p + len)")
    case False
    then have "match_len inm s p len lim = len"
      by (subst match_len.simps) auto
    then show ?thesis
      using "1.prems" by auto
  next
    case True
    then have eq: "match_len inm s p len lim = match_len inm s p (len + 1) lim"
      by (subst match_len.simps) simp
    have ih: "len + 1 \<le> match_len inm s p (len + 1) lim \<and> match_len inm s p (len + 1) lim \<le> lim
      \<and> (\<forall>i. len + 1 \<le> i \<and> i < match_len inm s p (len + 1) lim \<longrightarrow> inm (s + i) = inm (p + i))"
      using "1.IH" [OF True] True by simp
    show ?thesis
      unfolding eq
    proof (intro conjI allI impI)
      fix i
      assume "len \<le> i \<and> i < match_len inm s p (len + 1) lim"
      then show "inm (s + i) = inm (p + i)"
        using ih True by (cases "i = len") auto
    qed (use ih in auto)
  qed
qed

lemma and_window_mask: "s AND WINDOW_MASK = s mod WINDOW_SIZE"
proof -
  have "WINDOW_MASK = mask 17"
    by (simp add: WINDOW_MASK_def WINDOW_SIZE_def WINDOW_BITS_def mask_eq_exp_minus_1)
  moreover have "s AND mask 17 = take_bit 17 s"
    by (simp only: take_bit_eq_mask)
  moreover have "take_bit 17 s = s mod 2 ^ 17"
    by (simp only: take_bit_eq_mod)
  moreover have "WINDOW_SIZE = 2 ^ 17"
    by (simp add: WINDOW_SIZE_def WINDOW_BITS_def)
  ultimately show ?thesis
    by (simp only:)
qed

lemma Hash32_less: "Hash32 m a < HASH_SIZE"
proof -
  have "unat (drop_bit 13 (UnalignedLoad32 m a * 0x9E3779B9)) = unat (UnalignedLoad32 m a * 0x9E3779B9) div 2 ^ 13"
    by (simp add: drop_bit_eq_div unat_div)
  moreover have "unat (UnalignedLoad32 m a * 0x9E3779B9) < 2 ^ 32"
    using unsigned_less [of "UnalignedLoad32 m a * 0x9E3779B9", where ?'a = nat] by simp
  ultimately show ?thesis
    by (simp add: Hash32_def HASH_BITS_def HASH_SIZE_def)
qed

lemma WildCopy_from_frame:
  "0 \<le> i \<Longrightarrow> a < d + i \<Longrightarrow> WildCopy_from dm d sm s n i a = dm a"
proof (induction dm d sm s n i rule: WildCopy_from.induct)
  case (1 dm d sm s n i)
  show ?case
  proof (cases "i < n")
    case False
    then show ?thesis
      by (subst WildCopy_from.simps) simp
  next
    case True
    then have "WildCopy_from dm d sm s n i a
        = WildCopy_from (UnalignedCopy64 dm (d + i) sm (s + i)) d sm s n (i + 8) a"
      by (subst WildCopy_from.simps) simp
    also have "\<dots> = UnalignedCopy64 dm (d + i) sm (s + i) a"
      using "1.IH" [OF True] "1.prems" by simp
    also have "\<dots> = dm a"
      using "1.prems" by (simp add: UnalignedCopy64_def)
    finally show ?thesis .
  qed
qed

lemma WildCopy_from_content:
  "0 \<le> i \<Longrightarrow> d + i \<le> a \<Longrightarrow> a < d + n \<Longrightarrow> WildCopy_from dm d sm s n i a = sm (s + (a - d))"
proof (induction dm d sm s n i rule: WildCopy_from.induct)
  case (1 dm d sm s n i)
  have lt: "i < n"
    using "1.prems" by simp
  then have step: "WildCopy_from dm d sm s n i a
      = WildCopy_from (UnalignedCopy64 dm (d + i) sm (s + i)) d sm s n (i + 8) a"
    by (subst WildCopy_from.simps) simp
  show ?case
  proof (cases "a < d + (i + 8)")
    case True
    then have "WildCopy_from (UnalignedCopy64 dm (d + i) sm (s + i)) d sm s n (i + 8) a
        = UnalignedCopy64 dm (d + i) sm (s + i) a"
      using WildCopy_from_frame [of "i + 8" a d] "1.prems" by simp
    then show ?thesis
      using step True "1.prems" by (simp add: UnalignedCopy64_def algebra_simps)
  next
    case False
    then show ?thesis
      using step "1.IH" [OF lt] "1.prems" by simp
  qed
qed

lemma WildCopy_frame: "a < d \<Longrightarrow> WildCopy dm d sm s n a = dm a"
  using WildCopy_from_frame [of 8 a d] by (simp add: WildCopy_def UnalignedCopy64_def)

lemma WildCopy_content:
  assumes "d \<le> a" and "a < d + n"
  shows "WildCopy dm d sm s n a = sm (s + (a - d))"
proof (cases "a < d + 8")
  case True
  then show ?thesis
    using WildCopy_from_frame [of 8 a d] assms by (simp add: WildCopy_def UnalignedCopy64_def)
next
  case False
  then show ?thesis
    using WildCopy_from_content [of 8 d a n] assms by (simp add: WildCopy_def)
qed

lemma emit_run_props:
  assumes "emit_run inm om op anchor p token = (om', op')" and "anchor \<le> p"
  shows "op < op' \<and> (\<forall>a<op. om' a = om a)"
proof -
  define run where "run = p - anchor"
  obtain om1 op1 where h: "(if 7 \<le> run
        then EncodeMod (om(op := word_of_int (push_bit 5 7 + token))) (op + 1) (word_of_int (run - 7))
        else (om(op := word_of_int (push_bit 5 run + token)), op + 1)) = (om1, op1)"
    by (cases "(if 7 \<le> run
        then EncodeMod (om(op := word_of_int (push_bit 5 7 + token))) (op + 1) (word_of_int (run - 7))
        else (om(op := word_of_int (push_bit 5 run + token)), op + 1))") auto
  have res: "om' = WildCopy om1 op1 inm anchor run" "op' = op1 + run"
    using assms(1) h unfolding emit_run_def run_def [symmetric] by (simp_all add: Let_def)
  have h1: "op < op1 \<and> (\<forall>a<op. om1 a = om a)"
  proof (cases "7 \<le> run")
    case True
    then have "EncodeMod (om(op := word_of_int (push_bit 5 7 + token))) (op + 1) (word_of_int (run - 7)) = (om1, op1)"
      using h by simp
    from EncodeMod_frame [OF this] show ?thesis
      by auto
  next
    case False
    then show ?thesis
      using h by auto
  qed
  show ?thesis
    using h1 res assms(2) by (auto simp: run_def WildCopy_frame)
qed

lemma emit_match_props:
  assumes "emit_match inm om op anchor p best_len dist = (om', op')" and "anchor \<le> p"
  shows "op < op' \<and> (\<forall>a<op. om' a = om a)"
proof -
  define len where "len = best_len - MIN_MATCH"
  define token where "token = (drop_bit 12 dist AND 16) + min len 15"
  obtain om1 op1 where h1: "(if anchor \<noteq> p then emit_run inm om op anchor p token
        else (om(op := word_of_int token), op + 1)) = (om1, op1)"
    by (cases "(if anchor \<noteq> p then emit_run inm om op anchor p token
        else (om(op := word_of_int token), op + 1))") auto
  obtain om2 op2 where h2: "(if 15 \<le> len then EncodeMod om1 op1 (word_of_int (len - 15))
        else (om1, op1)) = (om2, op2)"
    by (cases "(if 15 \<le> len then EncodeMod om1 op1 (word_of_int (len - 15)) else (om1, op1))") auto
  have res: "om' = UnalignedStore16 om2 op2 (word_of_int dist)" "op' = op2 + 2"
    using assms(1) h1 h2 unfolding emit_match_def len_def [symmetric] Let_def token_def [symmetric]
    by simp_all
  have p1: "op < op1 \<and> (\<forall>a<op. om1 a = om a)"
  proof (cases "anchor \<noteq> p")
    case True
    then show ?thesis
      using h1 emit_run_props [of inm om op anchor p token om1 op1] assms(2) by simp
  next
    case False
    then show ?thesis
      using h1 by auto
  qed
  have p2: "op1 \<le> op2 \<and> (\<forall>a<op1. om2 a = om1 a)"
  proof (cases "15 \<le> len")
    case True
    then show ?thesis
      using h2 EncodeMod_frame [of om1 op1 "word_of_int (len - 15)" om2 op2] by auto
  next
    case False
    then show ?thesis
      using h2 by auto
  qed
  show ?thesis
    using p1 p2 res by (auto simp: UnalignedStore16_def)
qed

lemma emit_last_props:
  assumes "emit_last inm om op anchor p = (om', op')" and "anchor \<le> p"
  shows "op \<le> op' \<and> (\<forall>a<op. om' a = om a)"
  using assms emit_run_props [of inm om op anchor p 0 om' op']
  by (cases "anchor = p") (auto simp: emit_last_def)

text \<open>Invariants of the two main loops.\<close>

lemma CompressFast_loop_rule:
  assumes "I ht om op anchor p refs"
    and "\<And>ht om op anchor p refs best_len dist ht1.
           I ht om op anchor p refs \<Longrightarrow> p < in_len
           \<Longrightarrow> fast_probe inm in_len ht anchor p = (best_len, dist, ht1)
           \<Longrightarrow> \<not> MIN_MATCH \<le> best_len \<Longrightarrow> I ht1 om op anchor (p + 1) refs"
    and "\<And>ht om op anchor p refs best_len dist ht1 om' op'.
           I ht om op anchor p refs \<Longrightarrow> p < in_len
           \<Longrightarrow> fast_probe inm in_len ht anchor p = (best_len, dist, ht1)
           \<Longrightarrow> MIN_MATCH \<le> best_len
           \<Longrightarrow> emit_match inm om op anchor p best_len dist = (om', op')
           \<Longrightarrow> I (insert_after rhs_first inm
                   (insert_after rhs_first inm (insert_after rhs_first inm ht1 (p + 1)) (p + 2))
                   (p + 3))
                 om' op' (p + best_len) (p + best_len) (refs @ [(p, dist, best_len)])"
  shows "case CompressFast_loop rhs_first inm in_len ht om op anchor p refs of
           (ht', om', op', anchor', p', refs') \<Rightarrow> I ht' om' op' anchor' p' refs' \<and> in_len \<le> p'"
  using assms
proof (induction rhs_first inm in_len ht om op anchor p refs rule: CompressFast_loop.induct)
  case (1 rhs_first inm in_len ht om op anchor p refs)
  note inv = "1.prems"(1) and lit = "1.prems"(2) and mat = "1.prems"(3)
  show ?case
  proof (cases "p < in_len")
    case False
    then show ?thesis
      using inv by (subst CompressFast_loop.simps) simp
  next
    case True
    obtain best_len dist ht1 where fp: "fast_probe inm in_len ht anchor p = (best_len, dist, ht1)"
      by (cases "fast_probe inm in_len ht anchor p") auto
    show ?thesis
    proof (cases "MIN_MATCH \<le> best_len")
      case False
      have "I ht1 om op anchor (p + 1) refs"
        using lit [OF inv True fp False] .
      from "1.IH"(2) [OF True fp [symmetric] refl False this lit mat]
      show ?thesis
        using True fp False by (subst CompressFast_loop.simps) simp
    next
      case m: True
      obtain om' op' where em: "emit_match inm om op anchor p best_len dist = (om', op')"
        by (cases "emit_match inm om op anchor p best_len dist") auto
      have "I (insert_after rhs_first inm
                   (insert_after rhs_first inm (insert_after rhs_first inm ht1 (p + 1)) (p + 2))
                   (p + 3))
                 om' op' (p + best_len) (p + best_len) (refs @ [(p, dist, best_len)])"
        using mat [OF inv True fp m em] .
      from "1.IH"(1) [OF True fp [symmetric] refl m em [symmetric] this lit mat]
      show ?thesis
        using True fp m em by (subst CompressFast_loop.simps) simp
    qed
  qed
qed

lemma Compress_loop_rule:
  assumes "I ht prev om op anchor p refs"
    and "\<And>ht prev om op anchor p refs best_len dist ht' prev'.
           I ht prev om op anchor p refs \<Longrightarrow> p < in_len
           \<Longrightarrow> best_match inm in_len level max_chain ht prev anchor p = (best_len, dist)
           \<Longrightarrow> \<not> MIN_MATCH \<le> best_len
           \<Longrightarrow> insert_pos inm ht prev p = (ht', prev')
           \<Longrightarrow> I ht' prev' om op anchor (p + 1) refs"
    and "\<And>ht prev om op anchor p refs best_len dist om' op' ht' prev'.
           I ht prev om op anchor p refs \<Longrightarrow> p < in_len
           \<Longrightarrow> best_match inm in_len level max_chain ht prev anchor p = (best_len, dist)
           \<Longrightarrow> MIN_MATCH \<le> best_len
           \<Longrightarrow> emit_match inm om op anchor p best_len dist = (om', op')
           \<Longrightarrow> insert_run inm ht prev p best_len = (ht', prev')
           \<Longrightarrow> I ht' prev' om' op' (p + best_len) (p + best_len) (refs @ [(p, dist, best_len)])"
  shows "case Compress_loop inm in_len level max_chain ht prev om op anchor p refs of
           (ht', prev', om', op', anchor', p', refs') \<Rightarrow>
             I ht' prev' om' op' anchor' p' refs' \<and> in_len \<le> p'"
  using assms
proof (induction inm in_len level max_chain ht prev om op anchor p refs rule: Compress_loop.induct)
  case (1 inm in_len level max_chain ht prev om op anchor p refs)
  note inv = "1.prems"(1) and lit = "1.prems"(2) and mat = "1.prems"(3)
  show ?case
  proof (cases "p < in_len")
    case False
    then show ?thesis
      using inv by (subst Compress_loop.simps) simp
  next
    case True
    obtain best_len dist where bm:
      "best_match inm in_len level max_chain ht prev anchor p = (best_len, dist)"
      by (cases "best_match inm in_len level max_chain ht prev anchor p") auto
    show ?thesis
    proof (cases "MIN_MATCH \<le> best_len")
      case False
      obtain ht' prev' where ip: "insert_pos inm ht prev p = (ht', prev')"
        by (cases "insert_pos inm ht prev p") auto
      have "I ht' prev' om op anchor (p + 1) refs"
        using lit [OF inv True bm False ip] .
      from "1.IH"(2) [OF True bm [symmetric] False ip [symmetric] this lit mat]
      show ?thesis
        using True bm False ip by (subst Compress_loop.simps) simp
    next
      case m: True
      obtain om' op' where em: "emit_match inm om op anchor p best_len dist = (om', op')"
        by (cases "emit_match inm om op anchor p best_len dist") auto
      obtain ht' prev' where ir: "insert_run inm ht prev p best_len = (ht', prev')"
        by (cases "insert_run inm ht prev p best_len") auto
      have "I ht' prev' om' op' (p + best_len) (p + best_len) (refs @ [(p, dist, best_len)])"
        using mat [OF inv True bm m em ir] .
      from "1.IH"(1) [OF True bm [symmetric] m em [symmetric] ir [symmetric] this lit mat]
      show ?thesis
        using True bm m em ir by (subst Compress_loop.simps) simp
    qed
  qed
qed

subsection \<open>The match finder\<close>

lemma fast_probe_props:
  assumes fp: "fast_probe inm in_len ht anchor p = (best_len, dist, ht1)"
    and tab: "table_ok ht p" and p0: "0 \<le> p"
  shows "table_ok ht1 (p + 1) \<and> (MIN_MATCH \<le> best_len \<longrightarrow> match_ok inm in_len p dist best_len)"
proof (cases "MIN_MATCH \<le> in_len - p")
  case False
  then have "ht1 = ht" "best_len = 0"
    using fp by (auto simp: fast_probe_def Let_def)
  then show ?thesis
    using tab by (auto simp: table_ok_def MIN_MATCH_def)
next
  case True
  define h where "h = Hash32 inm p"
  define s where "s = ht h"
  define limit where "limit = max (p - WINDOW_SIZE) NIL"
  have h: "h < HASH_SIZE"
    unfolding h_def by (rule Hash32_less)
  have ht1: "ht1 = ht(h := p)"
    using fp True by (auto simp: fast_probe_def Let_def h_def split: if_splits)
  have t1: "table_ok ht1 (p + 1)"
    using tab p0 unfolding ht1 table_ok_def by auto
  show ?thesis
  proof (cases "limit < s \<and> UnalignedLoad32 inm s = UnalignedLoad32 inm p")
    case False
    then have "best_len = 0"
      using fp True by (auto simp: fast_probe_def Let_def h_def s_def limit_def split: if_splits)
    then show ?thesis
      using t1 by (simp add: MIN_MATCH_def)
  next
    case hit: True
    define len where "len = match_len inm s p MIN_MATCH (in_len - p)"
    have res: "dist = p - s" "best_len = len \<or> best_len = 0"
      using fp True hit
      by (auto simp: fast_probe_def Let_def h_def s_def limit_def len_def split: if_splits)
    have s: "0 \<le> s" "s < p" "p - WINDOW_SIZE < s"
      using hit tab h unfolding s_def limit_def table_ok_def NIL_def by auto
    have ml: "MIN_MATCH \<le> len" "len \<le> in_len - p"
      "\<forall>i. MIN_MATCH \<le> i \<and> i < len \<longrightarrow> inm (s + i) = inm (p + i)"
      using match_len_props [OF True, of inm s p] unfolding len_def by auto
    have first: "\<forall>i. 0 \<le> i \<and> i < MIN_MATCH \<longrightarrow> inm (s + i) = inm (p + i)"
    proof (intro allI impI)
      fix i :: int
      assume "0 \<le> i \<and> i < MIN_MATCH"
      then have "i = 0 \<or> i = 1 \<or> i = 2 \<or> i = 3"
        by (auto simp: MIN_MATCH_def)
      then show "inm (s + i) = inm (p + i)"
        using hit by (auto simp: load32_inj)
    qed
    have "\<forall>i. 0 \<le> i \<and> i < len \<longrightarrow> inm (p - (p - s) + i) = inm (p + i)"
      using first ml(3) by (metis add_diff_cancel_left' diff_add_cancel not_le add.commute)
    then have "match_ok inm in_len p (p - s) len"
      using s ml by (simp add: match_ok_def)
    then show ?thesis
      using t1 res by (auto simp: MIN_MATCH_def)
  qed
qed

lemma table_ok_insert_after:
  "table_ok ht p' \<Longrightarrow> 0 \<le> q \<Longrightarrow> q < p' \<Longrightarrow> table_ok (insert_after rhs_first inm ht q) p'"
  by (auto simp: table_ok_def insert_after_def)

lemma table_ok_mono: "table_ok ht p \<Longrightarrow> p \<le> p' \<Longrightarrow> table_ok ht p'"
  by (fastforce simp: table_ok_def)

lemma window_slots_differ:
  assumes "s < p" and "p - WINDOW_SIZE < s"
  shows "s AND WINDOW_MASK \<noteq> p AND WINDOW_MASK"
proof
  assume "s AND WINDOW_MASK = p AND WINDOW_MASK"
  then have "p mod WINDOW_SIZE = s mod WINDOW_SIZE"
    by (simp add: and_window_mask)
  then have "WINDOW_SIZE dvd p - s"
    by (simp add: mod_eq_dvd_iff)
  moreover have "0 < p - s" "p - s < WINDOW_SIZE"
    using assms by simp_all
  ultimately show False
    by (meson zdvd_not_zless)
qed

lemma chain_next:
  assumes "chain_ok prev p" and "limit < s" and "s < p" and "p - WINDOW_SIZE \<le> limit"
    and "NIL \<le> limit"
  shows "prev (s AND WINDOW_MASK) = NIL
    \<or> (0 \<le> prev (s AND WINDOW_MASK) \<and> prev (s AND WINDOW_MASK) < p)"
proof -
  have "0 \<le> s" "p - WINDOW_SIZE \<le> s"
    using assms by (simp_all add: NIL_def)
  then show ?thesis
    using assms(1,3) unfolding chain_ok_def by fastforce
qed

lemma hit_match_ok:
  assumes hit: "UnalignedLoad32 inm s = UnalignedLoad32 inm p"
    and s: "limit < s" "s < p" "p - WINDOW_SIZE \<le> limit" "NIL \<le> limit"
    and mm: "MIN_MATCH \<le> in_len - p"
  shows "match_ok inm in_len p (p - s) (match_len inm s p MIN_MATCH (in_len - p))"
proof -
  define len where "len = match_len inm s p MIN_MATCH (in_len - p)"
  have ml: "MIN_MATCH \<le> len" "len \<le> in_len - p"
    "\<forall>i. MIN_MATCH \<le> i \<and> i < len \<longrightarrow> inm (s + i) = inm (p + i)"
    using match_len_props [OF mm, of inm s p] unfolding len_def by auto
  have first: "\<forall>i. 0 \<le> i \<and> i < MIN_MATCH \<longrightarrow> inm (s + i) = inm (p + i)"
  proof (intro allI impI)
    fix i :: int
    assume "0 \<le> i \<and> i < MIN_MATCH"
    then have "i = 0 \<or> i = 1 \<or> i = 2 \<or> i = 3"
      by (auto simp: MIN_MATCH_def)
    then show "inm (s + i) = inm (p + i)"
      using hit by (auto simp: load32_inj)
  qed
  have "\<forall>i. 0 \<le> i \<and> i < len \<longrightarrow> inm (p - (p - s) + i) = inm (p + i)"
  proof (intro allI impI)
    fix i
    assume "0 \<le> i \<and> i < len"
    then have "inm (s + i) = inm (p + i)"
      using first ml(3) by (cases "i < MIN_MATCH") auto
    then show "inm (p - (p - s) + i) = inm (p + i)"
      by simp
  qed
  then show ?thesis
    using s ml unfolding len_def [symmetric] by (simp add: match_ok_def NIL_def)
qed

lemma find_best_props:
  "chain_ok prev p \<Longrightarrow> s = NIL \<or> (0 \<le> s \<and> s < p) \<Longrightarrow> p - WINDOW_SIZE \<le> limit
    \<Longrightarrow> NIL \<le> limit \<Longrightarrow> MIN_MATCH \<le> max_match \<Longrightarrow> max_match = in_len - p
    \<Longrightarrow> best_len = 0 \<or> match_ok inm in_len p dist best_len
    \<Longrightarrow> find_best inm prev p max_match limit s chain_len best_len dist = (bl, d)
    \<Longrightarrow> bl = 0 \<or> match_ok inm in_len p d bl"
proof (induction inm prev p max_match limit s chain_len best_len dist
    rule: find_best.induct)
  case (1 inm prev p max_match limit s chain_len best_len dist)
  show ?case
  proof (cases "limit < s")
    case False
    then have "(bl, d) = (best_len, dist)"
      using "1.prems"(8) by (subst (asm) find_best.simps) simp
    then show ?thesis
      using "1.prems"(7) by simp
  next
    case True
    then have s: "s < p"
      using "1.prems"(2,4) by auto
    define hit where "hit = (inm (s + best_len) = inm (p + best_len)
                          \<and> UnalignedLoad32 inm s = UnalignedLoad32 inm p)"
    define len where "len = match_len inm s p MIN_MATCH max_match"
    define better where "better = (hit \<and> best_len < len)"
    define best_len' where "best_len' = (if better then len else best_len)"
    define dist' where "dist' = (if better then p - s else dist)"
    have q': "best_len' = 0 \<or> match_ok inm in_len p dist' best_len'"
    proof (cases better)
      case False
      then show ?thesis
        using "1.prems"(7) by (simp add: best_len'_def dist'_def)
    next
      case True
      then have "UnalignedLoad32 inm s = UnalignedLoad32 inm p"
        by (simp add: better_def hit_def)
      from hit_match_ok [OF this \<open>limit < s\<close> s "1.prems"(3,4)] "1.prems"(5,6)
      show ?thesis
        using True by (simp add: best_len'_def dist'_def len_def)
    qed
    have eq: "find_best inm prev p max_match limit s chain_len best_len dist
        = (if better \<and> len = max_match then (best_len', dist')
           else if chain_len - 1 = 0 then (best_len', dist')
           else find_best inm prev p max_match limit (prev (s AND WINDOW_MASK)) (chain_len - 1)
                  best_len' dist')"
      using True unfolding hit_def len_def better_def best_len'_def dist'_def
      by (subst find_best.simps) (simp add: Let_def)
    show ?thesis
    proof (cases "(better \<and> len = max_match) \<or> chain_len - 1 = 0")
      case stop: True
      then have "(bl, d) = (best_len', dist')"
        using "1.prems"(8) unfolding eq by (auto split: if_splits)
      then show ?thesis
        using q' by simp
    next
      case go: False
      then have rec: "find_best inm prev p max_match limit (prev (s AND WINDOW_MASK)) (chain_len - 1)
          best_len' dist' = (bl, d)"
        using "1.prems"(8) unfolding eq by (auto split: if_splits)
      have nxt: "prev (s AND WINDOW_MASK) = NIL
        \<or> (0 \<le> prev (s AND WINDOW_MASK) \<and> prev (s AND WINDOW_MASK) < p)"
        using chain_next [OF "1.prems"(1) True s "1.prems"(3,4)] .
      have a: "\<not> (better \<and> len = max_match)" and b: "chain_len - 1 \<noteq> 0"
        using go by auto
      from "1.IH" [OF True hit_def len_def better_def best_len'_def dist'_def a b
          "1.prems"(1) nxt "1.prems"(3,4,5,6) q' rec]
      show ?thesis .
    qed
  qed
qed

lemma find_lazy_result:
  "find_lazy inm prev x target_len limit s chain_len best_len = 0
    \<or> find_lazy inm prev x target_len limit s chain_len best_len = best_len"
proof (induction inm prev x target_len limit s chain_len best_len rule: find_lazy.induct)
  case (1 inm prev x target_len limit s chain_len best_len)
  show ?case
  proof (cases "limit < s \<and> \<not> (inm (s + best_len) = inm (x + best_len)
               \<and> UnalignedLoad32 inm s = UnalignedLoad32 inm x
               \<and> match_len inm s x MIN_MATCH target_len = target_len) \<and> chain_len - 1 \<noteq> 0")
    case True
    then have "find_lazy inm prev x target_len limit s chain_len best_len
        = find_lazy inm prev x target_len limit (prev (s AND WINDOW_MASK)) (chain_len - 1) best_len"
      by (subst find_lazy.simps) auto
    then show ?thesis
      using "1.IH" True by auto
  next
    case False
    then show ?thesis
      by (subst (1 2) find_lazy.simps) auto
  qed
qed

lemma best_match_props:
  assumes bm: "best_match inm in_len level max_chain ht prev anchor p = (best_len, dist)"
    and tab: "table_ok ht p" and ch: "chain_ok prev p" and p0: "0 \<le> p"
  shows "MIN_MATCH \<le> best_len \<longrightarrow> match_ok inm in_len p dist best_len"
proof -
  obtain len0 dist0 where fb: "(if MIN_MATCH \<le> in_len - p
             then find_best inm prev p (in_len - p) (max (p - WINDOW_SIZE) NIL)
                    (ht (Hash32 inm p)) max_chain 0 0
             else (0, 0)) = (len0, dist0)"
    by (cases "(if MIN_MATCH \<le> in_len - p
             then find_best inm prev p (in_len - p) (max (p - WINDOW_SIZE) NIL)
                    (ht (Hash32 inm p)) max_chain 0 0
             else (0, 0))") auto
  define len1 where "len1 = (if len0 = MIN_MATCH \<and> 7 + 128 \<le> p - anchor then 0 else len0)"
  define lazy where "lazy = find_lazy inm prev (p + 1) (len1 + 1) (max (p + 1 - WINDOW_SIZE) NIL)
                 (ht (Hash32 inm (p + 1))) max_chain len1"
  have "best_match inm in_len level max_chain ht prev anchor p
      = (if 5 \<le> level \<and> MIN_MATCH \<le> len1 \<and> len1 < in_len - p \<and> p - anchor \<noteq> 6
         then lazy else len1, dist0)"
    unfolding best_match_def Let_def fb len1_def lazy_def by simp
  then have res: "dist = dist0" "best_len = lazy \<or> best_len = len1"
    using bm by (auto split: if_splits)
  have q0: "len0 = 0 \<or> match_ok inm in_len p dist0 len0"
  proof (cases "MIN_MATCH \<le> in_len - p")
    case False
    then show ?thesis
      using fb by simp
  next
    case True
    then have f: "find_best inm prev p (in_len - p) (max (p - WINDOW_SIZE) NIL)
                    (ht (Hash32 inm p)) max_chain 0 0 = (len0, dist0)"
      using fb by simp
    have s: "ht (Hash32 inm p) = NIL \<or> (0 \<le> ht (Hash32 inm p) \<and> ht (Hash32 inm p) < p)"
      using tab Hash32_less [of inm p] unfolding table_ok_def by blast
    from find_best_props [OF ch s _ _ True refl _ f] show ?thesis
      by simp
  qed
  have "lazy = 0 \<or> lazy = len1"
    unfolding lazy_def by (rule find_lazy_result)
  then have "best_len = 0 \<or> best_len = len0"
    using res(2) by (auto simp: len1_def split: if_splits)
  then show ?thesis
    using q0 res(1) by (auto simp: MIN_MATCH_def)
qed

lemma insert_pos_props:
  assumes ip: "insert_pos inm ht prev p = (ht', prev')"
    and tab: "table_ok ht p" and ch: "chain_ok prev p" and p0: "0 \<le> p"
  shows "table_ok ht' (p + 1) \<and> chain_ok prev' (p + 1)"
proof -
  define h where "h = Hash32 inm p"
  have res: "ht' = ht(h := p)" "prev' = prev(p AND WINDOW_MASK := ht h)"
    using ip by (auto simp: insert_pos_def h_def)
  have h: "ht h = NIL \<or> (0 \<le> ht h \<and> ht h < p)"
    using tab Hash32_less [of inm p] unfolding table_ok_def h_def by blast
  have t: "table_ok ht' (p + 1)"
    using tab p0 unfolding res table_ok_def by auto
  have c: "chain_ok prev' (p + 1)"
    unfolding chain_ok_def
  proof (intro allI impI)
    fix s
    assume s: "0 \<le> s \<and> p + 1 - WINDOW_SIZE \<le> s \<and> s < p + 1"
    show "prev' (s AND WINDOW_MASK) = NIL
      \<or> (0 \<le> prev' (s AND WINDOW_MASK) \<and> prev' (s AND WINDOW_MASK) < s)"
    proof (cases "s = p")
      case True
      then show ?thesis
        using h by (simp add: res)
    next
      case False
      then have "s < p" "p - WINDOW_SIZE < s"
        using s by simp_all
      then have "prev' (s AND WINDOW_MASK) = prev (s AND WINDOW_MASK)"
        using window_slots_differ [of s p] by (simp add: res)
      then show ?thesis
        using ch s \<open>s < p\<close> unfolding chain_ok_def by fastforce
    qed
  qed
  show ?thesis
    using t c by simp
qed

lemma insert_run_props:
  "insert_run inm ht prev p n = (ht', prev') \<Longrightarrow> table_ok ht p \<Longrightarrow> chain_ok prev p \<Longrightarrow> 0 \<le> p
    \<Longrightarrow> 0 \<le> n \<Longrightarrow> table_ok ht' (p + n) \<and> chain_ok prev' (p + n)"
proof (induction inm ht prev p n rule: insert_run.induct)
  case (1 inm ht prev p n)
  show ?case
  proof (cases "0 < n")
    case False
    then show ?thesis
      using "1.prems" by (subst (asm) insert_run.simps) auto
  next
    case True
    obtain ht1 prev1 where ip: "insert_pos inm ht prev p = (ht1, prev1)"
      by (cases "insert_pos inm ht prev p") auto
    have rec: "insert_run inm ht1 prev1 (p + 1) (n - 1) = (ht', prev')"
      using "1.prems"(1) True ip by (subst (asm) insert_run.simps) simp
    note st = insert_pos_props [OF ip "1.prems"(2,3,4)]
    from "1.IH" [OF True ip [symmetric] rec] st "1.prems"(4) True
    show ?thesis
      by (simp add: algebra_simps)
  qed
qed

lemma table_ok_reset: "table_ok (reset ht) 0"
  by (simp add: table_ok_def reset_def)

lemma chain_ok_0: "chain_ok prev 0"
  by (simp add: chain_ok_def)

lemma CompressFast_loop_refs:
  assumes "table_ok ht p" and "0 \<le> p" and "\<forall>(q, d, l)\<in>set refs. match_ok inm in_len q d l"
  shows "case CompressFast_loop rhs_first inm in_len ht om op anchor p refs of
           (ht', om', op', anchor', p', refs') \<Rightarrow>
             (table_ok ht' p' \<and> 0 \<le> p' \<and> (\<forall>(q, d, l)\<in>set refs'. match_ok inm in_len q d l))
             \<and> in_len \<le> p'"
proof (rule CompressFast_loop_rule [where I = "\<lambda>ht om op anchor p refs.
    table_ok ht p \<and> 0 \<le> p \<and> (\<forall>(q, d, l)\<in>set refs. match_ok inm in_len q d l)"])
  show "table_ok ht p \<and> 0 \<le> p \<and> (\<forall>(q, d, l)\<in>set refs. match_ok inm in_len q d l)"
    using assms by simp
next
  fix ht om op anchor p refs best_len dist ht1
  assume inv: "table_ok ht p \<and> 0 \<le> p \<and> (\<forall>(q, d, l)\<in>set refs. match_ok inm in_len q d l)"
    and fp: "fast_probe inm in_len ht anchor p = (best_len, dist, ht1)"
  from fast_probe_props [OF fp] inv
  show "table_ok ht1 (p + 1) \<and> 0 \<le> p + 1 \<and> (\<forall>(q, d, l)\<in>set refs. match_ok inm in_len q d l)"
    by simp
next
  fix ht om op anchor p refs best_len dist ht1 om' op'
  assume inv: "table_ok ht p \<and> 0 \<le> p \<and> (\<forall>(q, d, l)\<in>set refs. match_ok inm in_len q d l)"
    and fp: "fast_probe inm in_len ht anchor p = (best_len, dist, ht1)"
    and m: "MIN_MATCH \<le> best_len"
  from fast_probe_props [OF fp] inv m
  have t1: "table_ok ht1 (p + 1)" and mo: "match_ok inm in_len p dist best_len"
    by simp_all
  have "table_ok ht1 (p + best_len)"
    using table_ok_mono [OF t1] m by (simp add: MIN_MATCH_def)
  then have "table_ok (insert_after rhs_first inm
                   (insert_after rhs_first inm (insert_after rhs_first inm ht1 (p + 1)) (p + 2))
                   (p + 3)) (p + best_len)"
    using inv m by (intro table_ok_insert_after) (simp_all add: MIN_MATCH_def)
  then show "table_ok (insert_after rhs_first inm
                   (insert_after rhs_first inm (insert_after rhs_first inm ht1 (p + 1)) (p + 2))
                   (p + 3)) (p + best_len)
      \<and> 0 \<le> p + best_len
      \<and> (\<forall>(q, d, l)\<in>set (refs @ [(p, dist, best_len)]). match_ok inm in_len q d l)"
    using inv m mo by (auto simp: MIN_MATCH_def)
qed

lemma Compress_loop_refs:
  assumes "table_ok ht p" and "chain_ok prev p" and "0 \<le> p"
    and "\<forall>(q, d, l)\<in>set refs. match_ok inm in_len q d l"
  shows "case Compress_loop inm in_len level max_chain ht prev om op anchor p refs of
           (ht', prev', om', op', anchor', p', refs') \<Rightarrow>
             (table_ok ht' p' \<and> chain_ok prev' p' \<and> 0 \<le> p'
               \<and> (\<forall>(q, d, l)\<in>set refs'. match_ok inm in_len q d l))
             \<and> in_len \<le> p'"
proof (rule Compress_loop_rule [where I = "\<lambda>ht prev om op anchor p refs.
    table_ok ht p \<and> chain_ok prev p \<and> 0 \<le> p
    \<and> (\<forall>(q, d, l)\<in>set refs. match_ok inm in_len q d l)"])
  show "table_ok ht p \<and> chain_ok prev p \<and> 0 \<le> p
    \<and> (\<forall>(q, d, l)\<in>set refs. match_ok inm in_len q d l)"
    using assms by simp
next
  fix ht prev om op anchor p refs best_len dist ht' prev'
  assume inv: "table_ok ht p \<and> chain_ok prev p \<and> 0 \<le> p
      \<and> (\<forall>(q, d, l)\<in>set refs. match_ok inm in_len q d l)"
    and ip: "insert_pos inm ht prev p = (ht', prev')"
  from insert_pos_props [OF ip] inv
  show "table_ok ht' (p + 1) \<and> chain_ok prev' (p + 1) \<and> 0 \<le> p + 1
      \<and> (\<forall>(q, d, l)\<in>set refs. match_ok inm in_len q d l)"
    by simp
next
  fix ht prev om op anchor p refs best_len dist om' op' ht' prev'
  assume inv: "table_ok ht p \<and> chain_ok prev p \<and> 0 \<le> p
      \<and> (\<forall>(q, d, l)\<in>set refs. match_ok inm in_len q d l)"
    and bm: "best_match inm in_len level max_chain ht prev anchor p = (best_len, dist)"
    and m: "MIN_MATCH \<le> best_len"
    and ir: "insert_run inm ht prev p best_len = (ht', prev')"
  from best_match_props [OF bm] inv m have mo: "match_ok inm in_len p dist best_len"
    by simp
  from insert_run_props [OF ir] inv m
  have "table_ok ht' (p + best_len) \<and> chain_ok prev' (p + best_len)"
    by (simp add: MIN_MATCH_def)
  then show "table_ok ht' (p + best_len) \<and> chain_ok prev' (p + best_len) \<and> 0 \<le> p + best_len
      \<and> (\<forall>(q, d, l)\<in>set (refs @ [(p, dist, best_len)]). match_ok inm in_len q d l)"
    using inv m mo by (auto simp: MIN_MATCH_def)
qed

lemma CompressFast_run_refs:
  "\<forall>(q, d, l)\<in>set (snd (snd (snd (CompressFast_run rhs_first inm in_len om ht)))).
     match_ok inm in_len q d l"
  using CompressFast_loop_refs [where ht = "reset ht" and p = 0 and refs = "[]" and inm = inm
      and in_len = in_len and rhs_first = rhs_first and om = om and op = 0 and anchor = 0]
  by (auto simp: CompressFast_run_def table_ok_reset split: prod.splits)

lemma Compress_run_refs:
  "\<forall>(q, d, l)\<in>set (snd (snd (snd (snd (Compress_run inm in_len om level ht prev))))).
     match_ok inm in_len q d l"
proof (cases "level < 1 \<or> 9 < level")
  case True
  then show ?thesis
    by (simp add: Compress_run_def)
next
  case False
  show ?thesis
    using False Compress_loop_refs [where ht = "reset ht" and prev = prev and p = 0
        and refs = "[]" and inm = inm and in_len = in_len and level = level and om = om
        and op = 0 and anchor = 0
        and max_chain = "if level < 9 then push_bit (nat level) 1 else push_bit 13 1"]
    by (auto simp: Compress_run_def Let_def table_ok_reset chain_ok_0 split: prod.splits)
qed

text \<open>
  Claim C5. Every back-reference that \<open>CompressFast\<close> emits, and every one that \<open>Compress\<close>
  emits at any level, has \<open>1 \<le> dist < WINDOW_SIZE\<close> and \<open>dist \<le> p\<close>, where \<open>p\<close> is the input
  position at which the match starts. (The lists are the ghost components of the two
  loops; a level outside \<open>1..9\<close> emits nothing.)
\<close>

theorem distance_bound:
  "(\<forall>(p, dist, len)\<in>set (snd (snd (snd (CompressFast_run rhs_first inm in_len om ht)))).
      1 \<le> dist \<and> dist < WINDOW_SIZE \<and> dist \<le> p)
   \<and> (\<forall>(p, dist, len)\<in>set (snd (snd (snd (snd (Compress_run inm in_len om level ht prev))))).
      1 \<le> dist \<and> dist < WINDOW_SIZE \<and> dist \<le> p)"
  using CompressFast_run_refs [of rhs_first inm in_len om ht]
    Compress_run_refs [of inm in_len om level ht prev]
  by (auto simp: match_ok_def)

theorem distance_bound_witness:
  "snd (snd (snd (CompressFast_run False (mem_of [97, 97, 97, 97, 97, 97, 97, 97, 98]) 9
      (\<lambda>_. 0) (\<lambda>_. 0)))) = [(1, 1, 7)]
   \<and> snd (snd (snd (snd (Compress_run (\<lambda>_. 65) 16 (\<lambda>_. 0) 5 (\<lambda>_. 0) (\<lambda>_. 0))))) = [(1, 1, 15)]
   \<and> (1 :: int) \<le> 1 \<and> 1 < WINDOW_SIZE"
  using distance_bound [where rhs_first = False
      and inm = "mem_of [97, 97, 97, 97, 97, 97, 97, 97, 98]" and in_len = 9 and om = "\<lambda>_. 0"
      and ht = "\<lambda>_. 0" and level = 5 and prev = "\<lambda>_. 0"]
    distance_bound [where rhs_first = False and inm = "\<lambda>_. 65" and in_len = 16
      and om = "\<lambda>_. 0" and ht = "\<lambda>_. 0" and level = 5 and prev = "\<lambda>_. 0"]
  by (simp add: ulz_loops ulz_defs mem_of_def)

subsection \<open>Independence from the tables' prior contents\<close>

lemma find_best_agree:
  "chain_ok prevA p \<Longrightarrow> same_tables htA prevA htB prevB p \<Longrightarrow> s = NIL \<or> (0 \<le> s \<and> s < p)
    \<Longrightarrow> p - WINDOW_SIZE \<le> limit \<Longrightarrow> NIL \<le> limit
    \<Longrightarrow> find_best inm prevB p max_match limit s chain_len best_len dist
      = find_best inm prevA p max_match limit s chain_len best_len dist"
proof (induction inm prevA p max_match limit s chain_len best_len dist rule: find_best.induct)
  case (1 inm prevA p max_match limit s chain_len best_len dist)
  show ?case
  proof (cases "limit < s")
    case False
    then show ?thesis
      by (subst (1 2) find_best.simps) simp
  next
    case True
    then have s: "s < p" "0 \<le> s" "p - WINDOW_SIZE \<le> s"
      using "1.prems"(3,4,5) by (auto simp: NIL_def)
    define hit where "hit = (inm (s + best_len) = inm (p + best_len)
                          \<and> UnalignedLoad32 inm s = UnalignedLoad32 inm p)"
    define len where "len = match_len inm s p MIN_MATCH max_match"
    define better where "better = (hit \<and> best_len < len)"
    define best_len' where "best_len' = (if better then len else best_len)"
    define dist' where "dist' = (if better then p - s else dist)"
    have eq: "\<And>prev. find_best inm prev p max_match limit s chain_len best_len dist
        = (if better \<and> len = max_match then (best_len', dist')
           else if chain_len - 1 = 0 then (best_len', dist')
           else find_best inm prev p max_match limit (prev (s AND WINDOW_MASK)) (chain_len - 1)
                  best_len' dist')"
      using True unfolding hit_def len_def better_def best_len'_def dist'_def
      by (subst find_best.simps) (simp add: Let_def)
    have same: "prevB (s AND WINDOW_MASK) = prevA (s AND WINDOW_MASK)"
      using "1.prems"(2) s unfolding same_tables_def by blast
    show ?thesis
    proof (cases "(better \<and> len = max_match) \<or> chain_len - 1 = 0")
      case True
      then show ?thesis
        unfolding eq by auto
    next
      case go: False
      have nxt: "prevA (s AND WINDOW_MASK) = NIL
        \<or> (0 \<le> prevA (s AND WINDOW_MASK) \<and> prevA (s AND WINDOW_MASK) < p)"
        using chain_next [OF "1.prems"(1) True s(1) "1.prems"(4,5)] .
      have a: "\<not> (better \<and> len = max_match)" and b: "chain_len - 1 \<noteq> 0"
        using go by auto
      have step: ?thesis if "find_best inm prevB p max_match limit (prevA (s AND WINDOW_MASK))
            (chain_len - 1) best_len' dist'
          = find_best inm prevA p max_match limit (prevA (s AND WINDOW_MASK))
            (chain_len - 1) best_len' dist'"
        unfolding eq [of prevA] eq [of prevB] same using a b that by auto
      from "1.IH" [OF True hit_def len_def better_def best_len'_def dist'_def a b
          "1.prems"(1,2) nxt "1.prems"(4,5)]
      show ?thesis
        by (rule step)
    qed
  qed
qed

lemma find_lazy_agree:
  "chain_ok prevA p \<Longrightarrow> same_tables htA prevA htB prevB p \<Longrightarrow> s = NIL \<or> (0 \<le> s \<and> s < p)
    \<Longrightarrow> p - WINDOW_SIZE \<le> limit \<Longrightarrow> NIL \<le> limit
    \<Longrightarrow> find_lazy inm prevB x target_len limit s chain_len best_len
      = find_lazy inm prevA x target_len limit s chain_len best_len"
proof (induction inm prevA x target_len limit s chain_len best_len rule: find_lazy.induct)
  case (1 inm prevA x target_len limit s chain_len best_len)
  show ?case
  proof (cases "limit < s")
    case False
    then show ?thesis
      by (subst (1 2) find_lazy.simps) simp
  next
    case True
    then have s: "s < p" "0 \<le> s" "p - WINDOW_SIZE \<le> s"
      using "1.prems"(3,4,5) by (auto simp: NIL_def)
    define found where "found = (inm (s + best_len) = inm (x + best_len)
               \<and> UnalignedLoad32 inm s = UnalignedLoad32 inm x
               \<and> match_len inm s x MIN_MATCH target_len = target_len)"
    have eq: "\<And>prev. find_lazy inm prev x target_len limit s chain_len best_len
        = (if found then 0 else if chain_len - 1 = 0 then best_len
           else find_lazy inm prev x target_len limit (prev (s AND WINDOW_MASK)) (chain_len - 1)
                  best_len)"
      using True unfolding found_def by (subst find_lazy.simps) simp
    have same: "prevB (s AND WINDOW_MASK) = prevA (s AND WINDOW_MASK)"
      using "1.prems"(2) s unfolding same_tables_def by blast
    show ?thesis
    proof (cases "found \<or> chain_len - 1 = 0")
      case True
      then show ?thesis
        unfolding eq by auto
    next
      case go: False
      have nxt: "prevA (s AND WINDOW_MASK) = NIL
        \<or> (0 \<le> prevA (s AND WINDOW_MASK) \<and> prevA (s AND WINDOW_MASK) < p)"
        using chain_next [OF "1.prems"(1) True s(1) "1.prems"(4,5)] .
      have a: "\<not> (inm (s + best_len) = inm (x + best_len)
               \<and> UnalignedLoad32 inm s = UnalignedLoad32 inm x
               \<and> match_len inm s x MIN_MATCH target_len = target_len)"
        and b: "chain_len - 1 \<noteq> 0"
        using go by (auto simp: found_def)
      have step: ?thesis if "find_lazy inm prevB x target_len limit (prevA (s AND WINDOW_MASK))
            (chain_len - 1) best_len
          = find_lazy inm prevA x target_len limit (prevA (s AND WINDOW_MASK))
            (chain_len - 1) best_len"
        unfolding eq [of prevA] eq [of prevB] same using go that by auto
      from "1.IH" [OF True a b "1.prems"(1,2) nxt "1.prems"(4,5)]
      show ?thesis
        by (rule step)
    qed
  qed
qed

lemma best_match_agree:
  assumes tab: "table_ok htA p" and ch: "chain_ok prevA p" and same: "same_tables htA prevA htB prevB p"
  shows "best_match inm in_len level max_chain htB prevB anchor p
    = best_match inm in_len level max_chain htA prevA anchor p"
proof -
  have h: "\<And>q. htB (Hash32 inm q) = htA (Hash32 inm q)"
    using same Hash32_less unfolding same_tables_def by blast
  have s: "\<And>q. htA (Hash32 inm q) = NIL \<or> (0 \<le> htA (Hash32 inm q) \<and> htA (Hash32 inm q) < p)"
    using tab Hash32_less unfolding table_ok_def by blast
  have fb: "\<And>mm. find_best inm prevB p mm (max (p - WINDOW_SIZE) NIL) (htA (Hash32 inm p)) max_chain 0 0
      = find_best inm prevA p mm (max (p - WINDOW_SIZE) NIL) (htA (Hash32 inm p)) max_chain 0 0"
    by (rule find_best_agree [OF ch same s]) simp_all
  have fl: "\<And>t bl. find_lazy inm prevB (p + 1) t (max (p + 1 - WINDOW_SIZE) NIL)
        (htA (Hash32 inm (p + 1))) max_chain bl
      = find_lazy inm prevA (p + 1) t (max (p + 1 - WINDOW_SIZE) NIL)
        (htA (Hash32 inm (p + 1))) max_chain bl"
    by (rule find_lazy_agree [OF ch same s]) simp_all
  show ?thesis
    unfolding best_match_def h fb fl by simp
qed

lemma insert_pos_agree:
  assumes same: "same_tables htA prevA htB prevB p"
    and A: "insert_pos inm htA prevA p = (htA', prevA')"
    and B: "insert_pos inm htB prevB p = (htB', prevB')"
  shows "same_tables htA' prevA' htB' prevB' (p + 1)"
proof -
  have h: "htB (Hash32 inm p) = htA (Hash32 inm p)"
    using same Hash32_less unfolding same_tables_def by blast
  have res: "htA' = htA(Hash32 inm p := p)" "prevA' = prevA(p AND WINDOW_MASK := htA (Hash32 inm p))"
    "htB' = htB(Hash32 inm p := p)" "prevB' = prevB(p AND WINDOW_MASK := htA (Hash32 inm p))"
    using A B h by (auto simp: insert_pos_def)
  show ?thesis
    unfolding same_tables_def
  proof (intro conjI allI impI)
    fix h
    assume "h < HASH_SIZE"
    then show "htB' h = htA' h"
      using same unfolding res same_tables_def by simp
  next
    fix s
    assume s: "0 \<le> s \<and> p + 1 - WINDOW_SIZE \<le> s \<and> s < p + 1"
    show "prevB' (s AND WINDOW_MASK) = prevA' (s AND WINDOW_MASK)"
    proof (cases "s = p")
      case True
      then show ?thesis
        by (simp add: res)
    next
      case False
      then have "s AND WINDOW_MASK \<noteq> p AND WINDOW_MASK"
        using window_slots_differ [of s p] s by simp
      moreover have "prevB (s AND WINDOW_MASK) = prevA (s AND WINDOW_MASK)"
        using same s False unfolding same_tables_def by simp
      ultimately show ?thesis
        by (simp add: res)
    qed
  qed
qed

lemma insert_run_agree:
  "same_tables htA prevA htB prevB p \<Longrightarrow> insert_run inm htA prevA p n = (htA', prevA')
    \<Longrightarrow> insert_run inm htB prevB p n = (htB', prevB') \<Longrightarrow> 0 \<le> n
    \<Longrightarrow> same_tables htA' prevA' htB' prevB' (p + n)"
proof (induction inm htA prevA p n arbitrary: htB prevB rule: insert_run.induct)
  case (1 inm htA prevA p n)
  show ?case
  proof (cases "0 < n")
    case False
    then show ?thesis
      using "1.prems" by (subst (asm) (1 2) insert_run.simps) auto
  next
    case True
    obtain hA1 pA1 where ipA: "insert_pos inm htA prevA p = (hA1, pA1)"
      by (cases "insert_pos inm htA prevA p") auto
    obtain hB1 pB1 where ipB: "insert_pos inm htB prevB p = (hB1, pB1)"
      by (cases "insert_pos inm htB prevB p") auto
    have recA: "insert_run inm hA1 pA1 (p + 1) (n - 1) = (htA', prevA')"
      using "1.prems"(2) True ipA by (subst (asm) insert_run.simps) simp
    have recB: "insert_run inm hB1 pB1 (p + 1) (n - 1) = (htB', prevB')"
      using "1.prems"(3) True ipB by (subst (asm) insert_run.simps) simp
    from "1.IH" [OF True ipA [symmetric] insert_pos_agree [OF "1.prems"(1) ipA ipB] recA recB] True
    show ?thesis
      by (simp add: algebra_simps)
  qed
qed

lemma Compress_loop_stateless:
  "table_ok htA p \<Longrightarrow> chain_ok prevA p \<Longrightarrow> 0 \<le> p \<Longrightarrow> same_tables htA prevA htB prevB p
    \<Longrightarrow> snd (snd (Compress_loop inm in_len level max_chain htB prevB om op anchor p refs))
      = snd (snd (Compress_loop inm in_len level max_chain htA prevA om op anchor p refs))"
proof (induction inm in_len level max_chain htA prevA om op anchor p refs arbitrary: htB prevB
    rule: Compress_loop.induct)
  case (1 inm in_len level max_chain htA prevA om op anchor p refs)
  show ?case
  proof (cases "p < in_len")
    case False
    then show ?thesis
      by (subst (1 2) Compress_loop.simps) simp
  next
    case True
    obtain best_len dist where bm:
      "best_match inm in_len level max_chain htA prevA anchor p = (best_len, dist)"
      by (cases "best_match inm in_len level max_chain htA prevA anchor p") auto
    have bmB: "best_match inm in_len level max_chain htB prevB anchor p = (best_len, dist)"
      using best_match_agree [OF "1.prems"(1,2,4)] bm by simp
    show ?thesis
    proof (cases "MIN_MATCH \<le> best_len")
      case False
      obtain hA pA where ipA: "insert_pos inm htA prevA p = (hA, pA)"
        by (cases "insert_pos inm htA prevA p") auto
      obtain hB pB where ipB: "insert_pos inm htB prevB p = (hB, pB)"
        by (cases "insert_pos inm htB prevB p") auto
      have A: "Compress_loop inm in_len level max_chain htA prevA om op anchor p refs
          = Compress_loop inm in_len level max_chain hA pA om op anchor (p + 1) refs"
        using True bm False ipA by (subst Compress_loop.simps) simp
      have B: "Compress_loop inm in_len level max_chain htB prevB om op anchor p refs
          = Compress_loop inm in_len level max_chain hB pB om op anchor (p + 1) refs"
        using True bmB False ipB by (subst Compress_loop.simps) simp
      note st = insert_pos_props [OF ipA "1.prems"(1,2,3)]
      from "1.IH"(2) [OF True bm [symmetric] False ipA [symmetric] _ _ _
          insert_pos_agree [OF "1.prems"(4) ipA ipB]] st "1.prems"(3)
      show ?thesis
        unfolding A B by simp
    next
      case m: True
      obtain om' op' where em: "emit_match inm om op anchor p best_len dist = (om', op')"
        by (cases "emit_match inm om op anchor p best_len dist") auto
      obtain hA pA where irA: "insert_run inm htA prevA p best_len = (hA, pA)"
        by (cases "insert_run inm htA prevA p best_len") auto
      obtain hB pB where irB: "insert_run inm htB prevB p best_len = (hB, pB)"
        by (cases "insert_run inm htB prevB p best_len") auto
      have A: "Compress_loop inm in_len level max_chain htA prevA om op anchor p refs
          = Compress_loop inm in_len level max_chain hA pA om' op' (p + best_len) (p + best_len)
              (refs @ [(p, dist, best_len)])"
        using True bm m em irA by (subst Compress_loop.simps) simp
      have B: "Compress_loop inm in_len level max_chain htB prevB om op anchor p refs
          = Compress_loop inm in_len level max_chain hB pB om' op' (p + best_len) (p + best_len)
              (refs @ [(p, dist, best_len)])"
        using True bmB m em irB by (subst Compress_loop.simps) simp
      have n0: "0 \<le> best_len"
        using m by (simp add: MIN_MATCH_def)
      note st = insert_run_props [OF irA "1.prems"(1,2,3) n0]
      from "1.IH"(1) [OF True bm [symmetric] m em [symmetric] irA [symmetric] _ _ _
          insert_run_agree [OF "1.prems"(4) irA irB n0]] st "1.prems"(3) n0
      show ?thesis
        unfolding A B by simp
    qed
  qed
qed

lemma fast_probe_agree:
  assumes "\<forall>h<HASH_SIZE. htB h = htA h"
    and "fast_probe inm in_len htA anchor p = (bl, d, hA1)"
  shows "\<exists>hB1. fast_probe inm in_len htB anchor p = (bl, d, hB1) \<and> (\<forall>h<HASH_SIZE. hB1 h = hA1 h)"
proof -
  have h: "htB (Hash32 inm p) = htA (Hash32 inm p)"
    using assms(1) Hash32_less by blast
  show ?thesis
    using assms h by (auto simp: fast_probe_def Let_def split: if_splits)
qed

lemma insert_after_agree:
  "\<forall>h<HASH_SIZE. htB h = htA h
    \<Longrightarrow> \<forall>h<HASH_SIZE. insert_after rhs_first inm htB q h = insert_after rhs_first inm htA q h"
  by (simp add: insert_after_def)

lemma CompressFast_loop_stateless:
  "\<forall>h<HASH_SIZE. htB h = htA h
    \<Longrightarrow> snd (CompressFast_loop rhs_first inm in_len htB om op anchor p refs)
      = snd (CompressFast_loop rhs_first inm in_len htA om op anchor p refs)"
proof (induction rhs_first inm in_len htA om op anchor p refs arbitrary: htB
    rule: CompressFast_loop.induct)
  case (1 rhs_first inm in_len htA om op anchor p refs)
  show ?case
  proof (cases "p < in_len")
    case False
    then show ?thesis
      by (subst (1 2) CompressFast_loop.simps) simp
  next
    case True
    obtain best_len dist hA1 where fp: "fast_probe inm in_len htA anchor p = (best_len, dist, hA1)"
      by (cases "fast_probe inm in_len htA anchor p") auto
    from fast_probe_agree [OF "1.prems" fp] obtain hB1 where
      fpB: "fast_probe inm in_len htB anchor p = (best_len, dist, hB1)"
      and same1: "\<forall>h<HASH_SIZE. hB1 h = hA1 h"
      by blast
    show ?thesis
    proof (cases "MIN_MATCH \<le> best_len")
      case False
      have A: "CompressFast_loop rhs_first inm in_len htA om op anchor p refs
          = CompressFast_loop rhs_first inm in_len hA1 om op anchor (p + 1) refs"
        using True fp False by (subst CompressFast_loop.simps) simp
      have B: "CompressFast_loop rhs_first inm in_len htB om op anchor p refs
          = CompressFast_loop rhs_first inm in_len hB1 om op anchor (p + 1) refs"
        using True fpB False by (subst CompressFast_loop.simps) simp
      from "1.IH"(2) [OF True fp [symmetric] refl False same1] show ?thesis
        unfolding A B .
    next
      case m: True
      obtain om' op' where em: "emit_match inm om op anchor p best_len dist = (om', op')"
        by (cases "emit_match inm om op anchor p best_len dist") auto
      define ins where "ins = (\<lambda>ht. insert_after rhs_first inm
          (insert_after rhs_first inm (insert_after rhs_first inm ht (p + 1)) (p + 2)) (p + 3))"
      have A: "CompressFast_loop rhs_first inm in_len htA om op anchor p refs
          = CompressFast_loop rhs_first inm in_len (ins hA1) om' op' (p + best_len) (p + best_len)
              (refs @ [(p, dist, best_len)])"
        using True fp m em unfolding ins_def by (subst CompressFast_loop.simps) simp
      have B: "CompressFast_loop rhs_first inm in_len htB om op anchor p refs
          = CompressFast_loop rhs_first inm in_len (ins hB1) om' op' (p + best_len) (p + best_len)
              (refs @ [(p, dist, best_len)])"
        using True fpB m em unfolding ins_def by (subst CompressFast_loop.simps) simp
      have "\<forall>h<HASH_SIZE. ins hB1 h = ins hA1 h"
        unfolding ins_def by (intro insert_after_agree same1)
      from "1.IH"(1) [OF True fp [symmetric] refl m em [symmetric] this [unfolded ins_def]]
      show ?thesis
        unfolding A B ins_def .
    qed
  qed
qed

text \<open>
  Independence from the tables. The returned length and the output memory of \<open>Compress\<close>,
  and of \<open>CompressFast\<close>, do not depend on the contents of \<open>HashTable\<close> and \<open>Prev\<close> at the
  call: any two states of the tables give the same result on the same memory behind \<open>in\<close>,
  so a call on an instance that earlier calls have used writes what a call on a fresh
  instance writes. (\<open>Prev\<close> is never reset; the walk only follows slots that this call has
  written.)
\<close>

theorem stateless:
  "fst (Compress inm in_len om level ht prev) = fst (Compress inm in_len om level ht' prev')
    \<and> fst (snd (Compress inm in_len om level ht prev))
      = fst (snd (Compress inm in_len om level ht' prev'))
    \<and> fst (CompressFast rhs_first inm in_len om ht) = fst (CompressFast rhs_first inm in_len om ht')
    \<and> fst (snd (CompressFast rhs_first inm in_len om ht))
      = fst (snd (CompressFast rhs_first inm in_len om ht'))"
proof -
  have same0: "same_tables (reset ht') prev' (reset ht) prev 0"
    by (simp add: same_tables_def reset_def)
  have c: "snd (snd (Compress_loop inm in_len level mc (reset ht) prev om 0 0 0 []))
      = snd (snd (Compress_loop inm in_len level mc (reset ht') prev' om 0 0 0 []))" for mc
    by (rule Compress_loop_stateless [OF table_ok_reset chain_ok_0 _ same0]) simp
  have "\<forall>h<HASH_SIZE. reset ht h = reset ht' h"
    by (simp add: reset_def)
  then have f: "snd (CompressFast_loop rhs_first inm in_len (reset ht) om 0 0 0 [])
      = snd (CompressFast_loop rhs_first inm in_len (reset ht') om 0 0 0 [])"
    by (rule CompressFast_loop_stateless)
  have C: "fst (Compress inm in_len om level ht prev) = fst (Compress inm in_len om level ht' prev')
    \<and> fst (snd (Compress inm in_len om level ht prev))
      = fst (snd (Compress inm in_len om level ht' prev'))"
  proof (cases "level < 1 \<or> 9 < level")
    case True
    then show ?thesis
      by (simp add: Compress_def Compress_run_def)
  next
    case False
    define mc :: nat where "mc = (if level < 9 then push_bit (nat level) 1 else push_bit 13 1)"
    obtain h1 p1 rest1 where r1: "Compress_loop inm in_len level mc (reset ht) prev om 0 0 0 []
        = (h1, p1, rest1)"
      by (cases "Compress_loop inm in_len level mc (reset ht) prev om 0 0 0 []") auto
    obtain h2 p2 rest2 where r2: "Compress_loop inm in_len level mc (reset ht') prev' om 0 0 0 []
        = (h2, p2, rest2)"
      by (cases "Compress_loop inm in_len level mc (reset ht') prev' om 0 0 0 []") auto
    have "rest1 = rest2"
      using c [of mc] r1 r2 by simp
    then show ?thesis
      using False r1 r2 unfolding Compress_def Compress_run_def Let_def mc_def [symmetric]
      by (auto split: prod.splits)
  qed
  have F: "fst (CompressFast rhs_first inm in_len om ht) = fst (CompressFast rhs_first inm in_len om ht')
    \<and> fst (snd (CompressFast rhs_first inm in_len om ht))
      = fst (snd (CompressFast rhs_first inm in_len om ht'))"
  proof -
    obtain h1 rest1 where r1: "CompressFast_loop rhs_first inm in_len (reset ht) om 0 0 0 []
        = (h1, rest1)"
      by (cases "CompressFast_loop rhs_first inm in_len (reset ht) om 0 0 0 []") auto
    obtain h2 rest2 where r2: "CompressFast_loop rhs_first inm in_len (reset ht') om 0 0 0 []
        = (h2, rest2)"
      by (cases "CompressFast_loop rhs_first inm in_len (reset ht') om 0 0 0 []") auto
    have "rest1 = rest2"
      using f r1 r2 by simp
    then show ?thesis
      using r1 r2 unfolding CompressFast_def CompressFast_run_def
      by (auto split: prod.splits)
  qed
  show ?thesis
    using C F by simp
qed

text \<open>
  Claim C7. The tables do not make a call depend on the calls before it (theorem
  \<open>stateless\<close>), but the bytes of the input alone do not determine the output. At the levels
  \<open>5\<close> to \<open>9\<close> the lazy-matching test compares \<open>in[s+best_len]\<close> with \<open>in[x+best_len]\<close>, where
  \<open>x\<close> is \<open>p+1\<close> and \<open>best_len\<close> can be \<open>max_match-1\<close>: then \<open>x+best_len\<close> is \<open>in_len\<close>, the offset
  of the first byte behind the input. The search before it bounds its reads by \<open>max_match\<close>
  and never reads that byte. On the ten bytes \<open>aaaabaaaaa\<close> at level \<open>5\<close>, with the same
  tables, \<open>Compress\<close> writes nine bytes when the byte behind the input is \<open>b\<close>, and ten bytes
  when it is \<open>0\<close>.
\<close>

theorem Compress_reads_behind_input:
  "map (mem_of [97, 97, 97, 97, 98, 97, 97, 97, 97, 97, 98]) [0, 1, 2, 3, 4, 5, 6, 7, 8, 9]
      = map (mem_of [97, 97, 97, 97, 98, 97, 97, 97, 97, 97]) [0, 1, 2, 3, 4, 5, 6, 7, 8, 9]
    \<and> fst (Compress (mem_of [97, 97, 97, 97, 98, 97, 97, 97, 97, 97, 98]) 10 (\<lambda>_. 0) 5
          (\<lambda>_. 0) (\<lambda>_. 0)) = 9
    \<and> map (fst (snd (Compress (mem_of [97, 97, 97, 97, 98, 97, 97, 97, 97, 97, 98]) 10 (\<lambda>_. 0) 5
          (\<lambda>_. 0) (\<lambda>_. 0)))) [0, 1, 2, 3, 4, 5, 6, 7, 8]
        = [192, 97, 97, 97, 97, 98, 97, 1, 0]
    \<and> fst (Compress (mem_of [97, 97, 97, 97, 98, 97, 97, 97, 97, 97]) 10 (\<lambda>_. 0) 5
          (\<lambda>_. 0) (\<lambda>_. 0)) = 10
    \<and> map (fst (snd (Compress (mem_of [97, 97, 97, 97, 98, 97, 97, 97, 97, 97]) 10 (\<lambda>_. 0) 5
          (\<lambda>_. 0) (\<lambda>_. 0)))) [0, 1, 2, 3, 4, 5, 6, 7, 8, 9]
        = [160, 97, 97, 97, 97, 98, 5, 0, 32, 97]"
  by (simp add: ulz_loops ulz_defs mem_of_def word_le_nat_alt word_less_nat_alt)

subsection \<open>The length of the stream\<close>

text \<open>The conversion of the length to \<open>int\<close>.\<close>

lemma to_int_id: "- 2147483648 \<le> x \<Longrightarrow> x \<le> 2147483647 \<Longrightarrow> to_int x = x"
  by (simp add: to_int_def)




text \<open>
  \<open>EncodeMod\<close> writes five bytes at most, a token with its literals and its match at most
  one and a half times the bytes it stands for, and the block after the main loop at most
  six bytes more than its literals.
\<close>

lemma mod_limit_5: "mod_limit 5 = 34630287488"
proof -
  have "mod_limit 5 = mod_limit (Suc 4)"
    by (rule arg_cong [where f = mod_limit]) simp
  also have "\<dots> = 128 + 128 * mod_limit 4"
    by (rule mod_limit.simps(2))
  finally show ?thesis
    by (simp add: mod_limit_4)
qed

lemma EncodeMod_length:
  "unat x < mod_limit k \<Longrightarrow> EncodeMod m p x = (m', p') \<Longrightarrow> p' \<le> p + int k"
proof (induction k arbitrary: x m p)
  case 0
  then show ?case
    by simp
next
  case (Suc k)
  show ?case
  proof (cases "128 \<le> x")
    case False
    then have "p' = p + 1"
      using Suc.prems(2) by (subst (asm) EncodeMod.simps) simp
    then show ?thesis
      by simp
  next
    case True
    have rec: "EncodeMod (m(p := ucast (128 + ((x - 128) AND 127)))) (p + 1) (drop_bit 7 (x - 128))
        = (m', p')"
      using Suc.prems(2) True by (subst (asm) EncodeMod.simps) simp
    have "128 \<le> unat x"
      using True by (simp add: word_le_nat_alt)
    then have "(unat x - 128) div 128 < mod_limit k"
      using Suc.prems(1) by simp
    then have "unat (drop_bit 7 (x - 128)) < mod_limit k"
      using True by (simp add: unat_rest)
    from Suc.IH [OF this rec] show ?thesis
      by simp
  qed
qed

lemma EncodeMod_length_5: "EncodeMod m p x = (m', p') \<Longrightarrow> p' \<le> p + 5"
proof -
  assume e: "EncodeMod m p x = (m', p')"
  have "unat x < 4294967296"
    using unsigned_less [of x, where ?'a = nat] by simp
  then have "unat x < mod_limit 5"
    by (simp add: mod_limit_5)
  from EncodeMod_length [OF this e] show ?thesis
    by simp
qed

lemma emit_match_parts:
  assumes em: "emit_match inm om op anchor p best_len dist = (om', op')" and ap: "anchor \<le> p"
  obtains om1 op1 om2 op2 where
    "(if anchor \<noteq> p
      then emit_run inm om op anchor p ((drop_bit 12 dist AND 16) + min (best_len - MIN_MATCH) 15)
      else (om(op := word_of_int ((drop_bit 12 dist AND 16) + min (best_len - MIN_MATCH) 15)), op + 1))
      = (om1, op1)"
    "(if 15 \<le> best_len - MIN_MATCH
      then EncodeMod om1 op1 (word_of_int (best_len - MIN_MATCH - 15)) else (om1, op1)) = (om2, op2)"
    "om' = UnalignedStore16 om2 op2 (word_of_int dist)" "op' = op2 + 2" "op < op1" "op1 \<le> op2"
    "\<forall>a<op1. om' a = om1 a"
proof -
  define len where "len = best_len - MIN_MATCH"
  define token where "token = (drop_bit 12 dist AND 16) + min len 15"
  obtain om1 op1 where h1: "(if anchor \<noteq> p then emit_run inm om op anchor p token
        else (om(op := word_of_int token), op + 1)) = (om1, op1)"
    by (cases "(if anchor \<noteq> p then emit_run inm om op anchor p token
        else (om(op := word_of_int token), op + 1))") auto
  obtain om2 op2 where h2: "(if 15 \<le> len then EncodeMod om1 op1 (word_of_int (len - 15))
        else (om1, op1)) = (om2, op2)"
    by (cases "(if 15 \<le> len then EncodeMod om1 op1 (word_of_int (len - 15)) else (om1, op1))") auto
  have res: "om' = UnalignedStore16 om2 op2 (word_of_int dist)" "op' = op2 + 2"
    using em h1 h2 unfolding emit_match_def len_def [symmetric] Let_def token_def [symmetric]
    by simp_all
  have p1: "op < op1"
  proof (cases "anchor \<noteq> p")
    case True
    then show ?thesis
      using h1 emit_run_props [of inm om op anchor p token om1 op1] ap by simp
  next
    case False
    then show ?thesis
      using h1 by auto
  qed
  have p2: "op1 \<le> op2 \<and> (\<forall>a<op1. om2 a = om1 a)"
  proof (cases "15 \<le> len")
    case True
    then show ?thesis
      using h2 EncodeMod_frame [of om1 op1 "word_of_int (len - 15)" om2 op2] by auto
  next
    case False
    then show ?thesis
      using h2 by auto
  qed
  have fr: "\<forall>a<op1. om' a = om1 a"
    using p2 res by (simp add: UnalignedStore16_def)
  have p2': "op1 \<le> op2"
    using p2 by simp
  show thesis
    using that [OF h1 [unfolded token_def len_def] h2 [unfolded len_def] res p1 p2' fr] .
qed

lemma emit_run_size:
  assumes "emit_run inm om op anchor p token = (om', op')"
  shows "op' \<le> op + 6 + (p - anchor) \<and> (p - anchor < 7 \<longrightarrow> op' = op + 1 + (p - anchor))"
proof -
  define run where "run = p - anchor"
  obtain om1 op1 where h: "(if 7 \<le> run
        then EncodeMod (om(op := word_of_int (push_bit 5 7 + token))) (op + 1) (word_of_int (run - 7))
        else (om(op := word_of_int (push_bit 5 run + token)), op + 1)) = (om1, op1)"
    by (cases "(if 7 \<le> run
        then EncodeMod (om(op := word_of_int (push_bit 5 7 + token))) (op + 1) (word_of_int (run - 7))
        else (om(op := word_of_int (push_bit 5 run + token)), op + 1))") auto
  have res: "op' = op1 + run"
    using assms h unfolding emit_run_def run_def [symmetric] by (simp add: Let_def)
  show ?thesis
  proof (cases "7 \<le> run")
    case True
    then have "EncodeMod (om(op := word_of_int (push_bit 5 7 + token))) (op + 1) (word_of_int (run - 7)) = (om1, op1)"
      using h by simp
    from EncodeMod_length_5 [OF this] True res show ?thesis
      by (simp add: run_def)
  next
    case False
    then have "op1 = op + 1"
      using h by simp
    then show ?thesis
      using res by (simp add: run_def)
  qed
qed

lemma emit_match_size:
  assumes em: "emit_match inm om op anchor p best_len dist = (om', op')"
    and ap: "anchor \<le> p" and bl: "4 \<le> best_len"
  shows "2 * (op' - op) \<le> 3 * (p - anchor + best_len)"
proof -
  obtain om1 op1 om2 op2 where
    h1: "(if anchor \<noteq> p
      then emit_run inm om op anchor p ((drop_bit 12 dist AND 16) + min (best_len - MIN_MATCH) 15)
      else (om(op := word_of_int ((drop_bit 12 dist AND 16) + min (best_len - MIN_MATCH) 15)), op + 1))
      = (om1, op1)"
    and h2: "(if 15 \<le> best_len - MIN_MATCH
      then EncodeMod om1 op1 (word_of_int (best_len - MIN_MATCH - 15)) else (om1, op1)) = (om2, op2)"
    and "om' = UnalignedStore16 om2 op2 (word_of_int dist)" and res: "op' = op2 + 2"
    and "op < op1" and "op1 \<le> op2" and "\<forall>a<op1. om' a = om1 a"
    by (rule emit_match_parts [OF em ap])
  define run where "run = p - anchor"
  have r0: "0 \<le> run"
    using ap by (simp add: run_def)
  have s1: "op1 \<le> op + 6 + run \<and> (run < 7 \<longrightarrow> op1 = op + 1 + run)"
  proof (cases "anchor \<noteq> p")
    case True
    then show ?thesis
      using h1 emit_run_size [of inm om op anchor p _ om1 op1] by (simp add: run_def)
  next
    case False
    then show ?thesis
      using h1 by (auto simp: run_def)
  qed
  have s2: "op2 \<le> op1 + 5 \<and> (best_len < 19 \<longrightarrow> op2 = op1)"
  proof (cases "15 \<le> best_len - MIN_MATCH")
    case True
    then show ?thesis
      using h2 EncodeMod_length_5 [of om1 op1 _ om2 op2] by (simp add: MIN_MATCH_def)
  next
    case False
    then show ?thesis
      using h2 by (auto simp: MIN_MATCH_def)
  qed
  have "2 * (op' - op) \<le> 3 * (run + best_len)"
  proof (cases "best_len < 19")
    case True
    then have a: "op' = op1 + 2"
      using s2 res by simp
    show ?thesis
    proof (cases "run < 7")
      case True
      then show ?thesis
        using a s1 r0 bl by simp
    next
      case False
      then show ?thesis
        using a s1 bl by simp
    qed
  next
    case False
    then show ?thesis
      using s1 s2 res r0 by simp
  qed
  then show ?thesis
    by (simp add: run_def)
qed

lemma emit_last_size:
  assumes "emit_last inm om op anchor p = (om', op')" and "anchor \<le> p"
  shows "op' \<le> op + 6 + (p - anchor)"
  using assms emit_run_size [of inm om op anchor p 0 om' op']
  by (cases "anchor = p") (auto simp: emit_last_def)

lemma CompressFast_loop_size:
  assumes inv: "table_ok ht p \<and> 0 \<le> anchor \<and> anchor \<le> p \<and> p \<le> in_len \<and> 0 \<le> op
      \<and> 2 * op \<le> 3 * anchor"
  shows "case CompressFast_loop rhs_first inm in_len ht om op anchor p refs of
           (ht', om', op', anchor', p', refs') \<Rightarrow>
             (table_ok ht' p' \<and> 0 \<le> anchor' \<and> anchor' \<le> p' \<and> p' \<le> in_len \<and> 0 \<le> op'
               \<and> 2 * op' \<le> 3 * anchor')
             \<and> in_len \<le> p'"
proof (rule CompressFast_loop_rule [where I = "\<lambda>ht om op anchor p refs.
    table_ok ht p \<and> 0 \<le> anchor \<and> anchor \<le> p \<and> p \<le> in_len \<and> 0 \<le> op
    \<and> 2 * op \<le> 3 * anchor"])
  show "table_ok ht p \<and> 0 \<le> anchor \<and> anchor \<le> p \<and> p \<le> in_len \<and> 0 \<le> op
      \<and> 2 * op \<le> 3 * anchor"
    using inv .
next
  fix ht om op anchor p refs best_len dist ht1
  assume inv: "table_ok ht p \<and> 0 \<le> anchor \<and> anchor \<le> p \<and> p \<le> in_len \<and> 0 \<le> op
      \<and> 2 * op \<le> 3 * anchor"
    and lt: "p < in_len"
    and fp: "fast_probe inm in_len ht anchor p = (best_len, dist, ht1)"
  from fast_probe_props [OF fp] inv lt
  show "table_ok ht1 (p + 1) \<and> 0 \<le> anchor \<and> anchor \<le> p + 1 \<and> p + 1 \<le> in_len \<and> 0 \<le> op
      \<and> 2 * op \<le> 3 * anchor"
    by simp
next
  fix ht om op anchor p refs best_len dist ht1 om' op'
  assume inv: "table_ok ht p \<and> 0 \<le> anchor \<and> anchor \<le> p \<and> p \<le> in_len \<and> 0 \<le> op
      \<and> 2 * op \<le> 3 * anchor"
    and fp: "fast_probe inm in_len ht anchor p = (best_len, dist, ht1)"
    and m: "MIN_MATCH \<le> best_len"
    and em: "emit_match inm om op anchor p best_len dist = (om', op')"
  from fast_probe_props [OF fp] inv m
  have t1: "table_ok ht1 (p + 1)" and mo: "match_ok inm in_len p dist best_len"
    by simp_all
  have "table_ok ht1 (p + best_len)"
    using table_ok_mono [OF t1] m by (simp add: MIN_MATCH_def)
  then have tab: "table_ok (insert_after rhs_first inm
                   (insert_after rhs_first inm (insert_after rhs_first inm ht1 (p + 1)) (p + 2))
                   (p + 3)) (p + best_len)"
    using inv m by (intro table_ok_insert_after) (simp_all add: MIN_MATCH_def)
  have bl: "4 \<le> best_len" and ap: "anchor \<le> p"
    using m inv by (simp_all add: MIN_MATCH_def)
  have sz: "2 * (op' - op) \<le> 3 * (p - anchor + best_len)"
    using emit_match_size [OF em ap bl] .
  have "op < op'"
    using emit_match_props [OF em ap] by simp
  then show "table_ok (insert_after rhs_first inm
                   (insert_after rhs_first inm (insert_after rhs_first inm ht1 (p + 1)) (p + 2))
                   (p + 3)) (p + best_len)
      \<and> 0 \<le> p + best_len \<and> p + best_len \<le> p + best_len \<and> p + best_len \<le> in_len \<and> 0 \<le> op'
      \<and> 2 * op' \<le> 3 * (p + best_len)"
    using tab sz inv bl mo by (simp add: match_ok_def)
qed

lemma CompressFast_run_size:
  "0 \<le> fst (CompressFast_run rhs_first inm in_len om ht)
    \<and> 2 * fst (CompressFast_run rhs_first inm in_len om ht) \<le> 3 * max 0 in_len + 12"
proof (cases "0 \<le> in_len")
  case False
  then have "CompressFast_loop rhs_first inm in_len (reset ht) om 0 0 0 [] = (reset ht, om, 0, 0, 0, [])"
    by (subst CompressFast_loop.simps) simp
  then show ?thesis
    using False by (simp add: CompressFast_run_def emit_last_def)
next
  case True
  obtain ht1 om1 op anchor p refs where
    l: "CompressFast_loop rhs_first inm in_len (reset ht) om 0 0 0 [] = (ht1, om1, op, anchor, p, refs)"
    by (cases "CompressFast_loop rhs_first inm in_len (reset ht) om 0 0 0 []") auto
  have "table_ok (reset ht) 0 \<and> (0 :: int) \<le> 0 \<and> (0 :: int) \<le> 0 \<and> 0 \<le> in_len \<and> (0 :: int) \<le> 0
      \<and> 2 * (0 :: int) \<le> 3 * 0"
    using True by (simp add: table_ok_reset)
  from CompressFast_loop_size [OF this, of rhs_first inm om "[]"] l
  have inv: "0 \<le> anchor" "anchor \<le> p" "p = in_len" "0 \<le> op" "2 * op \<le> 3 * anchor"
    by simp_all
  obtain om2 n where el: "emit_last inm om1 op anchor p = (om2, n)"
    by (cases "emit_last inm om1 op anchor p") auto
  have "op \<le> n" "n \<le> op + 6 + (p - anchor)"
    using emit_last_props [OF el inv(2)] emit_last_size [OF el inv(2)] by simp_all
  moreover have "fst (CompressFast_run rhs_first inm in_len om ht) = n"
    using l el by (simp add: CompressFast_run_def)
  ultimately show ?thesis
    using inv True by simp
qed

lemma Compress_loop_size:
  assumes inv: "table_ok ht p \<and> chain_ok prev p \<and> 0 \<le> anchor \<and> anchor \<le> p \<and> p \<le> in_len
      \<and> 0 \<le> op \<and> 2 * op \<le> 3 * anchor"
  shows "case Compress_loop inm in_len level max_chain ht prev om op anchor p refs of
           (ht', prev', om', op', anchor', p', refs') \<Rightarrow>
             (table_ok ht' p' \<and> chain_ok prev' p' \<and> 0 \<le> anchor' \<and> anchor' \<le> p'
               \<and> p' \<le> in_len \<and> 0 \<le> op' \<and> 2 * op' \<le> 3 * anchor')
             \<and> in_len \<le> p'"
proof (rule Compress_loop_rule [where I = "\<lambda>ht prev om op anchor p refs.
    table_ok ht p \<and> chain_ok prev p \<and> 0 \<le> anchor \<and> anchor \<le> p \<and> p \<le> in_len \<and> 0 \<le> op
    \<and> 2 * op \<le> 3 * anchor"])
  show "table_ok ht p \<and> chain_ok prev p \<and> 0 \<le> anchor \<and> anchor \<le> p \<and> p \<le> in_len \<and> 0 \<le> op
      \<and> 2 * op \<le> 3 * anchor"
    using inv .
next
  fix ht prev om op anchor p refs best_len dist ht' prev'
  assume inv: "table_ok ht p \<and> chain_ok prev p \<and> 0 \<le> anchor \<and> anchor \<le> p \<and> p \<le> in_len
      \<and> 0 \<le> op \<and> 2 * op \<le> 3 * anchor"
    and lt: "p < in_len"
    and ip: "insert_pos inm ht prev p = (ht', prev')"
  from insert_pos_props [OF ip] inv lt
  show "table_ok ht' (p + 1) \<and> chain_ok prev' (p + 1) \<and> 0 \<le> anchor \<and> anchor \<le> p + 1
      \<and> p + 1 \<le> in_len \<and> 0 \<le> op \<and> 2 * op \<le> 3 * anchor"
    by simp
next
  fix ht prev om op anchor p refs best_len dist om' op' ht' prev'
  assume inv: "table_ok ht p \<and> chain_ok prev p \<and> 0 \<le> anchor \<and> anchor \<le> p \<and> p \<le> in_len
      \<and> 0 \<le> op \<and> 2 * op \<le> 3 * anchor"
    and bm: "best_match inm in_len level max_chain ht prev anchor p = (best_len, dist)"
    and m: "MIN_MATCH \<le> best_len"
    and em: "emit_match inm om op anchor p best_len dist = (om', op')"
    and ir: "insert_run inm ht prev p best_len = (ht', prev')"
  from best_match_props [OF bm] inv m have mo: "match_ok inm in_len p dist best_len"
    by simp
  from insert_run_props [OF ir] inv m
  have tab: "table_ok ht' (p + best_len) \<and> chain_ok prev' (p + best_len)"
    by (simp add: MIN_MATCH_def)
  have bl: "4 \<le> best_len" and ap: "anchor \<le> p"
    using m inv by (simp_all add: MIN_MATCH_def)
  have sz: "2 * (op' - op) \<le> 3 * (p - anchor + best_len)"
    using emit_match_size [OF em ap bl] .
  have "op < op'"
    using emit_match_props [OF em ap] by simp
  then show "table_ok ht' (p + best_len) \<and> chain_ok prev' (p + best_len) \<and> 0 \<le> p + best_len
      \<and> p + best_len \<le> p + best_len \<and> p + best_len \<le> in_len \<and> 0 \<le> op'
      \<and> 2 * op' \<le> 3 * (p + best_len)"
    using tab sz inv bl mo by (simp add: match_ok_def)
qed

lemma Compress_run_size:
  assumes lv: "1 \<le> level" "level \<le> 9"
  shows "0 \<le> fst (Compress_run inm in_len om level ht prev)
    \<and> 2 * fst (Compress_run inm in_len om level ht prev) \<le> 3 * max 0 in_len + 12"
proof -
  define max_chain :: nat where
    "max_chain = (if level < 9 then push_bit (nat level) 1 else push_bit 13 1)"
  show ?thesis
  proof (cases "0 \<le> in_len")
    case False
    then have "Compress_loop inm in_len level max_chain (reset ht) prev om 0 0 0 []
        = (reset ht, prev, om, 0, 0, 0, [])"
      by (subst Compress_loop.simps) simp
    then show ?thesis
      using False lv unfolding Compress_run_def Let_def max_chain_def [symmetric]
      by (simp add: emit_last_def)
  next
    case True
    obtain ht1 prev1 om1 op anchor p refs where
      l: "Compress_loop inm in_len level max_chain (reset ht) prev om 0 0 0 []
          = (ht1, prev1, om1, op, anchor, p, refs)"
      by (cases "Compress_loop inm in_len level max_chain (reset ht) prev om 0 0 0 []") auto
    have "table_ok (reset ht) 0 \<and> chain_ok prev 0 \<and> (0 :: int) \<le> 0 \<and> (0 :: int) \<le> 0 \<and> 0 \<le> in_len
        \<and> (0 :: int) \<le> 0 \<and> 2 * (0 :: int) \<le> 3 * 0"
      using True by (simp add: table_ok_reset chain_ok_0)
    from Compress_loop_size [OF this, of inm level max_chain om "[]"] l
    have inv: "0 \<le> anchor" "anchor \<le> p" "p = in_len" "0 \<le> op" "2 * op \<le> 3 * anchor"
      by simp_all
    obtain om2 n where el: "emit_last inm om1 op anchor p = (om2, n)"
      by (cases "emit_last inm om1 op anchor p") auto
    have "op \<le> n" "n \<le> op + 6 + (p - anchor)"
      using emit_last_props [OF el inv(2)] emit_last_size [OF el inv(2)] by simp_all
    moreover have "fst (Compress_run inm in_len om level ht prev) = n"
      using l el lv unfolding Compress_run_def Let_def max_chain_def [symmetric] by simp
    ultimately show ?thesis
      using inv True by simp
  qed
qed

text \<open>An input that the match finder finds nothing in.\<close>

lemma uint_byte: "0 \<le> t \<Longrightarrow> t < 256 \<Longrightarrow> uint (word_of_int t :: u8) = t"
  by (simp add: uint_word_of_int_eq take_bit_eq_mod)









subsection \<open>The round trip\<close>

text \<open>Bits and bytes of a token.\<close>

lemma and_15: "(x :: int) AND 15 = x mod 16"
proof -
  have "(15 :: int) = mask 4"
    by (simp add: mask_eq_exp_minus_1)
  moreover have "x AND mask 4 = take_bit 4 x"
    by (simp only: take_bit_eq_mask)
  ultimately show ?thesis
    by (simp add: take_bit_eq_mod)
qed

lemma and_16: "(x :: int) AND 16 = 16 * (x div 16 mod 2)"
proof -
  have b16: "bit (16 :: int) n \<longleftrightarrow> n = 4" for n
    using bit_exp_iff [of 4 n, where ?'a = int] by simp
  have "x AND 16 = push_bit 4 (drop_bit 4 x AND 1)"
  proof (rule bit_eqI)
    fix n
    show "bit (x AND 16) n = bit (push_bit 4 (drop_bit 4 x AND 1)) n"
      by (auto simp: bit_and_iff bit_push_bit_iff bit_drop_bit_eq b16 bit_1_iff)
  qed
  also have "\<dots> = 16 * (x div 16 mod 2)"
    by (simp add: push_bit_eq_mult drop_bit_eq_div and_one_eq del: push_bit_and)
  finally show ?thesis .
qed

lemma uint_u32: "0 \<le> v \<Longrightarrow> v < 4294967296 \<Longrightarrow> uint (word_of_int v :: u32) = v"
  by (simp add: uint_word_of_int_eq take_bit_eq_mod)

lemma unat_u32: "0 \<le> v \<Longrightarrow> v < 4294967296 \<Longrightarrow> unat (word_of_int v :: u32) = nat v"
  using uint_u32 [of v] by (simp add: unat_eq_nat_uint)

lemma uint_load16: "uint (UnalignedLoad16 m a) = uint (m a) + 256 * uint (m (a + 1))"
proof -
  have b: "\<And>w :: u8. 0 \<le> uint w \<and> uint w < 256"
    using unsigned_less [where ?'a = int and ?'b = 8] by simp
  have "0 \<le> uint (m a) + 256 * uint (m (a + 1))" "uint (m a) + 256 * uint (m (a + 1)) < 65536"
    using b [of "m a"] b [of "m (a + 1)"] by simp_all
  moreover have "UnalignedLoad16 m a = word_of_int (uint (m a) + 256 * uint (m (a + 1)))"
    by (simp add: UnalignedLoad16_def word_rcat_def)
  ultimately show ?thesis
    by (simp only: uint_word_of_int_eq take_bit_eq_mod) simp
qed

lemma load16_store16: "uint (UnalignedLoad16 (UnalignedStore16 m a x) a) = uint x"
proof -
  have lo: "uint (ucast x :: u8) = uint x mod 256"
    by (simp add: unsigned_ucast_eq take_bit_eq_mod)
  have "uint x < 65536"
    using unsigned_less [of x, where ?'a = int] by simp
  then have "uint x div 256 \<le> 65535 div 256"
    by (intro zdiv_mono1) simp_all
  then have "uint x div 256 mod 256 = uint x div 256"
    by (simp add: pos_imp_zdiv_nonneg_iff)
  then have hi: "uint (ucast (drop_bit 8 x) :: u8) = uint x div 256"
    by (simp add: unsigned_ucast_eq take_bit_eq_mod unsigned_drop_bit_eq drop_bit_eq_div
        uint_div_distrib)
  show ?thesis
    by (simp add: uint_load16 UnalignedStore16_def lo hi)
qed

lemma load16_agree: "m a = m' a \<Longrightarrow> m (a + 1) = m' (a + 1) \<Longrightarrow> UnalignedLoad16 m a = UnalignedLoad16 m' a"
  by (simp add: UnalignedLoad16_def)

lemma uint_dist16: "uint (word_of_int d :: u16) = d mod 65536"
  by (simp add: uint_word_of_int_eq take_bit_eq_mod)

text \<open>The fields of a token byte, as the decoder reads them.\<close>

lemma token_fields:
  fixes r dist len :: int
  assumes r: "0 \<le> r" "r \<le> 7" and d: "0 \<le> dist" "dist < 131072" and l: "0 \<le> len"
  defines "tk \<equiv> (drop_bit 12 dist AND 16) + min len 15"
  defines "t \<equiv> push_bit 5 r + tk"
  shows "0 \<le> t \<and> t < 256 \<and> drop_bit 5 t = r \<and> (32 \<le> t \<longleftrightarrow> 1 \<le> r)
    \<and> t AND 15 = min len 15 \<and> push_bit 12 (t AND 16) + dist mod 65536 = dist"
proof -
  define b where "b = dist div 65536"
  have b: "b = 0 \<or> b = 1"
    using d unfolding b_def by auto
  have "drop_bit 12 dist div 16 = b"
    by (simp add: drop_bit_eq_div b_def div_mult2_eq)
  then have hb: "drop_bit 12 dist AND 16 = 16 * b"
    using b by (auto simp: and_16)
  define m where "m = min len 15"
  have m: "0 \<le> m" "m \<le> 15"
    using l by (simp_all add: m_def)
  have t: "t = 32 * r + 16 * b + m"
    by (simp add: t_def tk_def hb m_def push_bit_eq_mult)
  have 1: "0 \<le> t \<and> t < 256"
    using r b m unfolding t by auto
  define lo where "lo = 16 * b + m"
  have "t = lo + 32 * r"
    by (simp add: t lo_def)
  moreover have "0 \<le> lo" "lo < 32"
    using b m unfolding lo_def by auto
  ultimately have "t div 32 = r"
    by simp
  then have 2: "drop_bit 5 t = r"
    by (simp add: drop_bit_eq_div)
  have 3: "32 \<le> t \<longleftrightarrow> 1 \<le> r"
    using r b m unfolding t by auto
  define k where "k = 2 * r + b"
  have t16: "t = m + 16 * k"
    by (simp add: t k_def)
  have "t mod 16 = m"
    unfolding t16 using m by simp
  then have 4: "t AND 15 = m"
    by (simp add: and_15)
  have "t div 16 = k"
    unfolding t16 using m by simp
  then have "t div 16 mod 2 = b"
    using b unfolding k_def by auto
  then have "push_bit 12 (t AND 16) = 65536 * b"
    by (simp add: and_16 push_bit_eq_mult)
  then have 5: "push_bit 12 (t AND 16) + dist mod 65536 = dist"
    unfolding b_def by simp
  show ?thesis
    using 1 2 3 4 5 by (simp add: m_def)
qed


lemma token_run:
  fixes r tk :: int
  assumes "0 \<le> r" "r \<le> 7" "0 \<le> tk" "tk < 32"
  defines "t \<equiv> push_bit 5 r + tk"
  shows "0 \<le> t \<and> t < 256 \<and> drop_bit 5 t = r \<and> (32 \<le> t \<longleftrightarrow> 1 \<le> r)"
proof -
  have t: "t = tk + 32 * r"
    by (simp add: t_def push_bit_eq_mult)
  have "t div 32 = r"
    unfolding t using assms(3,4) by simp
  then have "drop_bit 5 t = r"
    by (simp add: drop_bit_eq_div)
  then show ?thesis
    using assms(1-4) unfolding t by auto
qed

lemma token_range:
  fixes dist len :: int
  assumes "0 \<le> dist" "dist < 131072" "0 \<le> len"
  shows "0 \<le> (drop_bit 12 dist AND 16) + min len 15 \<and> (drop_bit 12 dist AND 16) + min len 15 < 32"
proof -
  have "drop_bit 12 dist div 16 mod 2 = 0 \<or> drop_bit 12 dist div 16 mod 2 = 1"
    by auto
  then show ?thesis
    using assms(3) by (auto simp: and_16)
qed

text \<open>What the decoder's copies leave in the output buffer.\<close>

lemma WildCopy_chk_from_Input:
  "src = Input \<Longrightarrow> WildCopy_chk_from src im icap om ocap d s n i = Some om'
    \<Longrightarrow> om' = WildCopy_from om d im s n i"
proof (induction src im icap om ocap d s n i rule: WildCopy_chk_from.induct)
  case (1 src im icap om ocap d s n i)
  show ?case
  proof (cases "i < n")
    case False
    then show ?thesis
      using "1.prems" by (subst (asm) WildCopy_chk_from.simps, subst WildCopy_from.simps) simp
  next
    case True
    then obtain om1 where c: "Copy64_chk src im icap om ocap (d + i) (s + i) = Some om1"
      and r: "WildCopy_chk_from src im icap om1 ocap d s n (i + 8) = Some om'"
      using "1.prems"(2) by (subst (asm) WildCopy_chk_from.simps) (auto split: option.splits)
    have "om1 = UnalignedCopy64 om (d + i) im (s + i)"
      using c "1.prems"(1) by (auto simp: Copy64_chk_def split: if_splits)
    with "1.IH" [OF True c "1.prems"(1) r] show ?thesis
      using True by (subst WildCopy_from.simps) simp
  qed
qed

lemma WildCopy_chk_Input:
  assumes "WildCopy_chk Input im icap om ocap d s n = Some om'"
  shows "om' = WildCopy om d im s n"
proof -
  obtain om1 where c: "Copy64_chk Input im icap om ocap d s = Some om1"
    and r: "WildCopy_chk_from Input im icap om1 ocap d s n 8 = Some om'"
    using assms by (auto simp: WildCopy_chk_def split: option.splits)
  have "om1 = UnalignedCopy64 om d im s"
    using c by (auto simp: Copy64_chk_def split: if_splits)
  with WildCopy_chk_from_Input [OF refl r] show ?thesis
    by (simp add: WildCopy_def)
qed

text \<open>
  A match copy with \<open>dist \<ge> 8\<close>: every eight-byte step reads below the bytes it writes.
  \<open>t\<close> is the text being rebuilt; the buffer holds it below \<open>d\<close>, and the text repeats
  itself at the distance \<open>d - s\<close> for \<open>n\<close> bytes.
\<close>

lemma WildCopy_chk_from_Output:
  "src = Output \<Longrightarrow> WildCopy_chk_from src im icap om ocap d s n i = Some om'
    \<Longrightarrow> s + 8 \<le> d \<Longrightarrow> 0 \<le> s \<Longrightarrow> 0 \<le> i
    \<Longrightarrow> (\<forall>j. 0 \<le> j \<and> j < n \<longrightarrow> t (s + j) = t (d + j))
    \<Longrightarrow> (\<forall>a. 0 \<le> a \<and> a < d + i \<and> a < d + n \<longrightarrow> om a = t a)
    \<Longrightarrow> (\<forall>a. 0 \<le> a \<and> a < d + n \<longrightarrow> om' a = t a)"
proof (induction src im icap om ocap d s n i rule: WildCopy_chk_from.induct)
  case (1 src im icap om ocap d s n i)
  show ?case
  proof (cases "i < n")
    case False
    then have "om' = om"
      using "1.prems"(2) by (subst (asm) WildCopy_chk_from.simps) simp
    then show ?thesis
      using "1.prems"(7) False by auto
  next
    case True
    then obtain om1 where c: "Copy64_chk src im icap om ocap (d + i) (s + i) = Some om1"
      and r: "WildCopy_chk_from src im icap om1 ocap d s n (i + 8) = Some om'"
      using "1.prems"(2) by (subst (asm) WildCopy_chk_from.simps) (auto split: option.splits)
    have om1: "om1 = UnalignedCopy64 om (d + i) om (s + i)"
      using c "1.prems"(1) by (auto simp: Copy64_chk_def split: if_splits)
    have inv: "\<forall>a. 0 \<le> a \<and> a < d + (i + 8) \<and> a < d + n \<longrightarrow> om1 a = t a"
    proof (intro allI impI)
      fix a
      assume a: "0 \<le> a \<and> a < d + (i + 8) \<and> a < d + n"
      show "om1 a = t a"
      proof (cases "a < d + i")
        case True
        then show ?thesis
          using a "1.prems"(7) by (simp add: om1 UnalignedCopy64_def)
      next
        case False
        then have "om1 a = om (s + (a - d))"
          using a by (simp add: om1 UnalignedCopy64_def algebra_simps)
        also have "\<dots> = t (s + (a - d))"
          using "1.prems"(3,4,5,7) a False by auto
        also have "\<dots> = t (d + (a - d))"
          using "1.prems"(6) a False "1.prems"(5) by auto
        finally show ?thesis
          by simp
      qed
    qed
    from "1.IH" [OF True c "1.prems"(1) r "1.prems"(3,4) _ "1.prems"(6) inv] "1.prems"(5)
    show ?thesis
      by simp
  qed
qed

lemma WildCopy_chk_Output:
  assumes w: "WildCopy_chk Output im icap om ocap d s n = Some om'"
    and far: "s + 8 \<le> d" and s0: "0 \<le> s" and n0: "0 \<le> n"
    and rep: "\<forall>j. 0 \<le> j \<and> j < n \<longrightarrow> t (s + j) = t (d + j)"
    and old: "\<forall>a. 0 \<le> a \<and> a < d \<longrightarrow> om a = t a"
  shows "\<forall>a. 0 \<le> a \<and> a < d + n \<longrightarrow> om' a = t a"
proof -
  obtain om1 where c: "Copy64_chk Output im icap om ocap d s = Some om1"
    and r: "WildCopy_chk_from Output im icap om1 ocap d s n 8 = Some om'"
    using w by (auto simp: WildCopy_chk_def split: option.splits)
  have om1: "om1 = UnalignedCopy64 om d om s"
    using c by (auto simp: Copy64_chk_def split: if_splits)
  have inv: "\<forall>a. 0 \<le> a \<and> a < d + 8 \<and> a < d + n \<longrightarrow> om1 a = t a"
  proof (intro allI impI)
    fix a
    assume a: "0 \<le> a \<and> a < d + 8 \<and> a < d + n"
    show "om1 a = t a"
    proof (cases "a < d")
      case True
      then show ?thesis
        using a old by (simp add: om1 UnalignedCopy64_def)
    next
      case False
      then have "om1 a = om (s + (a - d))"
        using a by (simp add: om1 UnalignedCopy64_def)
      also have "\<dots> = t (s + (a - d))"
        using far s0 old a False by auto
      also have "\<dots> = t (d + (a - d))"
        using rep a False by auto
      finally show ?thesis
        by simp
    qed
  qed
  from WildCopy_chk_from_Output [OF refl r far s0 _ rep inv] show ?thesis
    by simp
qed

text \<open>A match copy with \<open>dist < 8\<close>, byte by byte.\<close>

lemma copy_byte_text:
  assumes c: "copy_byte om ocap d s = Some om1"
    and lt: "s < d" and s0: "0 \<le> s" and same: "t s = t d"
    and old: "\<forall>a. 0 \<le> a \<and> a < d \<longrightarrow> om a = t a"
  shows "\<forall>a. 0 \<le> a \<and> a < d + 1 \<longrightarrow> om1 a = t a"
proof -
  have "om1 = om(d := om s)"
    using c by (auto simp: copy_byte_def split: if_splits)
  then show ?thesis
    using lt s0 same old by auto
qed

lemma copy_tail_text:
  "copy_tail om ocap d s len = Some om' \<Longrightarrow> s < d \<Longrightarrow> 0 \<le> s
    \<Longrightarrow> (\<forall>j. 0 \<le> j \<and> j < len - 4 \<longrightarrow> t (s + j) = t (d + j))
    \<Longrightarrow> (\<forall>a. 0 \<le> a \<and> a < d \<longrightarrow> om a = t a)
    \<Longrightarrow> (\<forall>a. 0 \<le> a \<and> a < d + (len - 4) \<longrightarrow> om' a = t a)"
proof (induction om ocap d s len rule: copy_tail.induct)
  case (1 om ocap d s len)
  show ?case
  proof (cases "len = 4")
    case True
    then have "om' = om"
      using "1.prems"(1) by (subst (asm) copy_tail.simps) simp
    then show ?thesis
      using "1.prems"(5) True by simp
  next
    case False
    have ge: "\<not> len < 4"
      using "1.prems"(1) False by (subst (asm) copy_tail.simps) (simp split: if_splits)
    obtain om1 where c: "copy_byte om ocap d s = Some om1"
      and r: "copy_tail om1 ocap (d + 1) (s + 1) (len - 1) = Some om'"
      using "1.prems"(1) False ge by (subst (asm) copy_tail.simps) (auto split: option.splits)
    have "t s = t d"
      using "1.prems"(4) [rule_format, of 0] False ge by simp
    from copy_byte_text [OF c "1.prems"(2,3) this "1.prems"(5)]
    have inv: "\<forall>a. 0 \<le> a \<and> a < d + 1 \<longrightarrow> om1 a = t a" .
    have rep: "\<forall>j. 0 \<le> j \<and> j < len - 1 - 4 \<longrightarrow> t (s + 1 + j) = t (d + 1 + j)"
    proof (intro allI impI)
      fix j :: int
      assume "0 \<le> j \<and> j < len - 1 - 4"
      then show "t (s + 1 + j) = t (d + 1 + j)"
        using "1.prems"(4) [rule_format, of "j + 1"] by (simp add: algebra_simps)
    qed
    from "1.IH" [OF False ge c r _ _ rep inv] "1.prems"(2,3)
    show ?thesis
      by (simp add: algebra_simps)
  qed
qed

lemma copy_short_text:
  assumes c: "copy_short om ocap d s len = Some om'"
    and lt: "s < d" and s0: "0 \<le> s" and len: "4 \<le> len"
    and rep: "\<forall>j. 0 \<le> j \<and> j < len \<longrightarrow> t (s + j) = t (d + j)"
    and old: "\<forall>a. 0 \<le> a \<and> a < d \<longrightarrow> om a = t a"
  shows "\<forall>a. 0 \<le> a \<and> a < d + len \<longrightarrow> om' a = t a"
proof -
  obtain o1 o2 o3 o4 where c1: "copy_byte om ocap d s = Some o1"
    and c2: "copy_byte o1 ocap (d + 1) (s + 1) = Some o2"
    and c3: "copy_byte o2 ocap (d + 2) (s + 2) = Some o3"
    and c4: "copy_byte o3 ocap (d + 3) (s + 3) = Some o4"
    and ct: "copy_tail o4 ocap (d + 4) (s + 4) len = Some om'"
    using c by (auto simp: copy_short_def split: option.splits)
  have r: "t (s + j) = t (d + j)" if "0 \<le> j" "j < 4" for j
    using rep that len by auto
  have i1: "\<forall>a. 0 \<le> a \<and> a < d + 1 \<longrightarrow> o1 a = t a"
    using copy_byte_text [OF c1 lt s0 _ old] r [of 0] by simp
  have i2: "\<forall>a. 0 \<le> a \<and> a < d + 2 \<longrightarrow> o2 a = t a"
    using copy_byte_text [OF c2 _ _ _ i1] r [of 1] lt s0 by simp
  have i3: "\<forall>a. 0 \<le> a \<and> a < d + 3 \<longrightarrow> o3 a = t a"
    using copy_byte_text [OF c3 _ _ _ i2] r [of 2] lt s0 by simp
  have i4: "\<forall>a. 0 \<le> a \<and> a < d + 4 \<longrightarrow> o4 a = t a"
    using copy_byte_text [OF c4 _ _ _ i3] r [of 3] lt s0 by simp
  have rep4: "\<forall>j. 0 \<le> j \<and> j < len - 4 \<longrightarrow> t (s + 4 + j) = t (d + 4 + j)"
  proof (intro allI impI)
    fix j :: int
    assume "0 \<le> j \<and> j < len - 4"
    then show "t (s + 4 + j) = t (d + 4 + j)"
      using rep [rule_format, of "j + 4"] by (simp add: algebra_simps)
  qed
  from copy_tail_text [OF ct _ _ rep4 i4] lt s0 show ?thesis
    by (simp add: algebra_simps)
qed

text \<open>The decoder reads back what the encoders write.\<close>

lemma DecodeMod_of_EncodeMod:
  assumes e: "EncodeMod m p (word_of_int v) = (m', p')"
    and v: "0 \<le> v" "v < 270549120"
    and p0: "0 \<le> p" and cap: "p + 4 \<le> icap"
    and ag: "\<forall>a. 0 \<le> a \<and> a < p' \<longrightarrow> im a = m' a"
  shows "DecodeMod im icap p = Some (word_of_int v, p')"
proof -
  have u: "unat (word_of_int v :: u32) < mod_limit 4"
    using v by (simp add: unat_u32 mod_limit_4)
  from EncodeMod_DecodeMod_from [OF u e p0 order_refl, where i = 0 and acc = 0]
  have A: "DecodeMod m' p' p = Some (word_of_int v, p')"
    by (simp add: DecodeMod_def)
  from DecodeMod_safe [of icap p im] obtain y q where B: "DecodeMod im icap p = Some (y, q)"
    using p0 cap by (auto simp: in_bounds_def)
  have "\<forall>a. 0 \<le> a \<and> a < p' \<longrightarrow> m' a = im a"
    using ag by simp
  from DecodeMod_agree [OF A B this] have "word_of_int v = y \<and> p' = q"
    by simp
  with B show ?thesis
    by simp
qed

lemma literal_phase_emit_run:
  assumes er: "emit_run inm om op anchor p tk = (om1, op1)"
    and run: "anchor < p" "p - anchor \<le> 270549126" and a0: "0 \<le> anchor" and o0: "0 \<le> op"
    and tk: "0 \<le> tk" "tk < 32"
    and ag: "\<forall>a. 0 \<le> a \<and> a < op1 \<longrightarrow> im a = om1 a"
    and n: "op1 \<le> n" and icap: "n + EXCESS \<le> icap" and ocap: "out_len + EXCESS \<le> ocap"
    and pl: "p \<le> out_len"
    and old: "\<forall>a. 0 \<le> a \<and> a < anchor \<longrightarrow> omd a = inm a"
  shows "uint (im op) = push_bit 5 (min (p - anchor) 7) + tk
    \<and> (\<exists>omd1. (\<forall>a. 0 \<le> a \<and> a < p \<longrightarrow> omd1 a = inm a)
          \<and> literal_phase im icap n omd ocap out_len (uint (im op)) (op + 1) anchor
              = Some (if n \<le> op1 then Stop_end omd1 op1 p else Continue omd1 op1 p))"
proof -
  define run where "run = p - anchor"
  define r where "r = min run 7"
  define t where "t = push_bit 5 r + tk"
  have r: "0 \<le> r" "r \<le> 7" "1 \<le> r"
    using run(1) by (simp_all add: r_def run_def)
  from token_run [OF r(1,2) tk]
  have tf: "0 \<le> t" "t < 256" "drop_bit 5 t = r" "32 \<le> t"
    using r(3) by (simp_all add: t_def)
  obtain omE opE where h: "(if 7 \<le> run
        then EncodeMod (om(op := word_of_int (push_bit 5 7 + tk))) (op + 1) (word_of_int (run - 7))
        else (om(op := word_of_int (push_bit 5 run + tk)), op + 1)) = (omE, opE)"
    by (cases "(if 7 \<le> run
        then EncodeMod (om(op := word_of_int (push_bit 5 7 + tk))) (op + 1) (word_of_int (run - 7))
        else (om(op := word_of_int (push_bit 5 run + tk)), op + 1))") auto
  have res: "om1 = WildCopy omE opE inm anchor run" "op1 = opE + run"
    using er h unfolding emit_run_def run_def [symmetric] by (simp_all add: Let_def)
  have hE: "op < opE \<and> omE op = word_of_int t"
  proof (cases "7 \<le> run")
    case True
    then have "EncodeMod (om(op := word_of_int (push_bit 5 7 + tk))) (op + 1) (word_of_int (run - 7)) = (omE, opE)"
      using h by simp
    from EncodeMod_frame [OF this] True show ?thesis
      by (auto simp: t_def r_def)
  next
    case False
    then show ?thesis
      using h by (auto simp: t_def r_def)
  qed
  have run1: "1 \<le> run"
    using run(1) by (simp add: run_def)
  have agE: "\<forall>a. 0 \<le> a \<and> a < opE \<longrightarrow> im a = omE a"
    using ag res run1 by (simp add: WildCopy_frame)
  have tok: "uint (im op) = t"
    using agE hE o0 tf by (simp add: uint_byte)
  have rr: "read_run im icap t (op + 1) = Some (run, opE)"
  proof (cases "7 \<le> run")
    case True
    then have e: "EncodeMod (om(op := word_of_int (push_bit 5 7 + tk))) (op + 1) (word_of_int (run - 7)) = (omE, opE)"
      using h by simp
    have "DecodeMod im icap (op + 1) = Some (word_of_int (run - 7), opE)"
      using True run(2) o0 hE res n icap run1
      by (intro DecodeMod_of_EncodeMod [OF e _ _ _ _ agE]) (simp_all add: run_def EXCESS_def)
    moreover have "uint (word_of_int (run - 7) :: u32) = run - 7"
      using True run(2) by (intro uint_u32) (simp_all add: run_def)
    moreover have "drop_bit 5 t = 7"
      using tf True by (simp add: r_def)
    ultimately show ?thesis
      by (simp add: read_run_def)
  next
    case False
    then have "drop_bit 5 t = run" "opE = op + 1"
      using tf h by (auto simp: r_def)
    then show ?thesis
      using False by (simp add: read_run_def)
  qed
  obtain omd1 where wc: "WildCopy_chk Input im icap omd ocap anchor opE run = Some omd1"
    using WildCopy_chk_safe [where d = anchor and s = opE and n = run and ocap = ocap
        and src = Input and icap = icap and im = im and om = omd] a0 o0 hE run1 pl ocap
      res n icap
    by (auto simp: run_def EXCESS_def)
  have omd1: "omd1 = WildCopy omd anchor im opE run"
    using WildCopy_chk_Input [OF wc] .
  have body: "\<forall>a. 0 \<le> a \<and> a < p \<longrightarrow> omd1 a = inm a"
  proof (intro allI impI)
    fix a
    assume a: "0 \<le> a \<and> a < p"
    show "omd1 a = inm a"
    proof (cases "a < anchor")
      case True
      then show ?thesis
        using a old by (simp add: omd1 WildCopy_frame)
    next
      case False
      then have "omd1 a = im (opE + (a - anchor))"
        using a by (simp add: omd1 WildCopy_content run_def)
      also have "\<dots> = om1 (opE + (a - anchor))"
        using ag a False res o0 hE by (simp add: run_def)
      also have "\<dots> = inm (anchor + (opE + (a - anchor) - opE))"
        unfolding res using a False by (intro WildCopy_content) (simp_all add: run_def)
      finally show ?thesis
        by simp
    qed
  qed
  have "literal_phase im icap n omd ocap out_len t (op + 1) anchor
      = Some (if n \<le> op1 then Stop_end omd1 op1 p else Continue omd1 op1 p)"
    using tf rr wc pl n res by (simp add: literal_phase_def run_def)
  then show ?thesis
    using tok body by (auto simp: t_def r_def run_def)
qed

lemma match_phase_emit:
  assumes e2: "(if 15 \<le> len then EncodeMod om1 op1 (word_of_int (len - 15)) else (om1, op1))
      = (om2, op2)"
    and om': "om' = UnalignedStore16 om2 op2 (word_of_int dist)"
    and mo: "match_ok inm in_len p dist best_len" and len: "len = best_len - MIN_MATCH"
    and small: "best_len \<le> 270549138" and o0: "0 \<le> op1"
    and tok: "t AND 15 = min len 15" "push_bit 12 (t AND 16) + dist mod 65536 = dist"
    and ag: "\<forall>a. 0 \<le> a \<and> a < op2 + 2 \<longrightarrow> im a = om' a"
    and n: "op2 + 2 \<le> n" and icap: "n + EXCESS \<le> icap" and ocap: "in_len + EXCESS \<le> ocap"
    and old: "\<forall>a. 0 \<le> a \<and> a < p \<longrightarrow> omd a = inm a"
  shows "\<exists>omd2. (\<forall>a. 0 \<le> a \<and> a < p + best_len \<longrightarrow> omd2 a = inm a)
          \<and> match_phase im icap omd ocap in_len t op1 p
              = Some (Continue omd2 (op2 + 2) (p + best_len))"
proof -
  have m: "1 \<le> dist" "dist \<le> p" "4 \<le> best_len" "p + best_len \<le> in_len"
    and rep: "\<forall>j. 0 \<le> j \<and> j < best_len \<longrightarrow> inm (p - dist + j) = inm (p + j)"
    using mo by (simp_all add: match_ok_def MIN_MATCH_def)
  have len0: "0 \<le> len" "best_len = len + 4"
    using m len by (simp_all add: MIN_MATCH_def)
  have o2: "op1 \<le> op2 \<and> (\<forall>a<op2. om' a = om2 a)"
  proof (cases "15 \<le> len")
    case True
    then show ?thesis
      using e2 EncodeMod_frame [of om1 op1 "word_of_int (len - 15)" om2 op2]
      by (auto simp: om' UnalignedStore16_def)
  next
    case False
    then show ?thesis
      using e2 by (auto simp: om' UnalignedStore16_def)
  qed
  have ag2: "\<forall>a. 0 \<le> a \<and> a < op2 \<longrightarrow> im a = om2 a"
    using ag o2 by simp
  have rl: "read_len im icap t op1 = Some (best_len, op2)"
  proof (cases "15 \<le> len")
    case True
    then have e: "EncodeMod om1 op1 (word_of_int (len - 15)) = (om2, op2)"
      using e2 by simp
    have "DecodeMod im icap op1 = Some (word_of_int (len - 15), op2)"
      using True small len0 o0 o2 n icap
      by (intro DecodeMod_of_EncodeMod [OF e _ _ _ _ ag2]) (simp_all add: EXCESS_def)
    moreover have "uint (word_of_int (len - 15) :: u32) = len - 15"
      using True small len0 by (intro uint_u32) simp_all
    moreover have "t AND 15 = 15"
      using tok(1) True by simp
    ultimately show ?thesis
      using len0 by (simp add: read_len_def MIN_MATCH_def)
  next
    case False
    then have "t AND 15 = len" "op2 = op1"
      using tok(1) e2 by auto
    then show ?thesis
      using False len0 by (simp add: read_len_def MIN_MATCH_def)
  qed
  have "UnalignedLoad16 im op2 = UnalignedLoad16 om' op2"
    using ag o0 o2 by (intro load16_agree) simp_all
  then have "uint (UnalignedLoad16 im op2) = dist mod 65536"
    by (simp add: om' load16_store16 uint_dist16)
  moreover have "in_bounds icap op2 2"
    using o0 o2 n icap by (simp add: in_bounds_def EXCESS_def)
  ultimately obtain w where ld: "Load16_chk im icap op2 = Some w" "uint w = dist mod 65536"
    by (simp add: Load16_chk_def)
  have d: "push_bit 12 (t AND 16) + uint w = dist"
    using tok(2) ld(2) by simp
  have p0: "0 \<le> p"
    using m by simp
  show ?thesis
  proof (cases "8 \<le> dist")
    case True
    obtain omd2 where wc: "WildCopy_chk Output im icap omd ocap p (p - dist) best_len = Some omd2"
      using WildCopy_chk_safe [where d = p and s = "p - dist" and n = best_len and ocap = ocap
          and src = Output and icap = icap and im = im and om = omd] m ocap
      by (auto simp: EXCESS_def)
    from WildCopy_chk_Output [OF wc _ _ _ rep old] True m
    have "\<forall>a. 0 \<le> a \<and> a < p + best_len \<longrightarrow> omd2 a = inm a"
      by simp
    moreover have "match_phase im icap omd ocap in_len t op1 p
        = Some (Continue omd2 (op2 + 2) (p + best_len))"
      using rl ld(1) d True m wc by (simp add: match_phase_def Let_def)
    ultimately show ?thesis
      by blast
  next
    case False
    obtain omd2 where cs: "copy_short omd ocap p (p - dist) best_len = Some omd2"
      using copy_short_safe [of best_len "p - dist" p ocap omd] m ocap
      by (auto simp: EXCESS_def)
    from copy_short_text [OF cs _ _ _ rep old] m
    have "\<forall>a. 0 \<le> a \<and> a < p + best_len \<longrightarrow> omd2 a = inm a"
      by simp
    moreover have "match_phase im icap omd ocap in_len t op1 p
        = Some (Continue omd2 (op2 + 2) (p + best_len))"
      using rl ld(1) d False m cs by (simp add: match_phase_def Let_def)
    ultimately show ?thesis
      by blast
  qed
qed

text \<open>
  One token. The encoder is at output offset \<open>op\<close> with the literals from \<open>anchor\<close>
  pending and emits the match at \<open>p\<close>; the decoder, at input offset \<open>op\<close> with \<open>anchor\<close>
  bytes of the text rebuilt, reads the token and arrives where the encoder went.
\<close>

lemma Decompress_loop_token:
  assumes em: "emit_match inm om op anchor p best_len dist = (om', op')"
    and mo: "match_ok inm in_len p dist best_len"
    and a0: "0 \<le> anchor" and ap: "anchor \<le> p" and o0: "0 \<le> op"
    and small: "in_len \<le> 270549126"
    and ag: "\<forall>a. 0 \<le> a \<and> a < op' \<longrightarrow> im a = om' a"
    and n: "op' \<le> n" and icap: "n + EXCESS \<le> icap" and ocap: "in_len + EXCESS \<le> ocap"
    and old: "\<forall>a. 0 \<le> a \<and> a < anchor \<longrightarrow> omd a = inm a"
  shows "\<exists>omd'. (\<forall>a. 0 \<le> a \<and> a < p + best_len \<longrightarrow> omd' a = inm a)
          \<and> Decompress_loop im icap n ocap in_len omd op anchor
              = Decompress_loop im icap n ocap in_len omd' op' (p + best_len)"
proof -
  define len where "len = best_len - MIN_MATCH"
  define token where "token = (drop_bit 12 dist AND 16) + min len 15"
  define r where "r = (if anchor \<noteq> p then min (p - anchor) 7 else 0)"
  define t where "t = push_bit 5 r + token"
  have m: "1 \<le> dist" "dist < 131072" "dist \<le> p" "4 \<le> best_len" "p + best_len \<le> in_len"
    using mo by (simp_all add: match_ok_def MIN_MATCH_def WINDOW_SIZE_def WINDOW_BITS_def)
  have len0: "0 \<le> len"
    using m by (simp add: len_def MIN_MATCH_def)
  have r: "0 \<le> r" "r \<le> 7"
    using ap by (simp_all add: r_def)
  have d0: "0 \<le> dist"
    using m by simp
  from token_fields [OF r d0 m(2) len0]
  have tf: "0 \<le> t" "t < 256" "drop_bit 5 t = r" "32 \<le> t \<longleftrightarrow> 1 \<le> r"
    "t AND 15 = min len 15" "push_bit 12 (t AND 16) + dist mod 65536 = dist"
    by (simp_all add: t_def token_def)
  from token_range [OF d0 m(2) len0]
  have tk: "0 \<le> token" "token < 32"
    by (simp_all add: token_def)
  obtain om1 op1 where h1: "(if anchor \<noteq> p then emit_run inm om op anchor p token
        else (om(op := word_of_int token), op + 1)) = (om1, op1)"
    by (cases "(if anchor \<noteq> p then emit_run inm om op anchor p token
        else (om(op := word_of_int token), op + 1))") auto
  obtain om2 op2 where h2: "(if 15 \<le> len then EncodeMod om1 op1 (word_of_int (len - 15))
        else (om1, op1)) = (om2, op2)"
    by (cases "(if 15 \<le> len then EncodeMod om1 op1 (word_of_int (len - 15)) else (om1, op1))") auto
  have res: "om' = UnalignedStore16 om2 op2 (word_of_int dist)" "op' = op2 + 2"
    using em h1 h2 unfolding emit_match_def len_def [symmetric] Let_def token_def [symmetric]
    by simp_all
  have p1: "op < op1"
  proof (cases "anchor \<noteq> p")
    case True
    then show ?thesis
      using h1 emit_run_props [of inm om op anchor p token om1 op1] ap by simp
  next
    case False
    then show ?thesis
      using h1 by auto
  qed
  have p2: "op1 \<le> op2 \<and> (\<forall>a<op1. om2 a = om1 a)"
  proof (cases "15 \<le> len")
    case True
    then show ?thesis
      using h2 EncodeMod_frame [of om1 op1 "word_of_int (len - 15)" om2 op2] by auto
  next
    case False
    then show ?thesis
      using h2 by auto
  qed
  have ag1: "\<forall>a. 0 \<le> a \<and> a < op1 \<longrightarrow> im a = om1 a"
    using ag p2 res by (simp add: UnalignedStore16_def)
  have lit: "uint (im op) = t
    \<and> (\<exists>omd1. (\<forall>a. 0 \<le> a \<and> a < p \<longrightarrow> omd1 a = inm a)
          \<and> literal_phase im icap n omd ocap in_len t (op + 1) anchor = Some (Continue omd1 op1 p))"
  proof (cases "anchor \<noteq> p")
    case True
    then have er: "emit_run inm om op anchor p token = (om1, op1)"
      using h1 by simp
    have "op1 \<le> n" "\<not> n \<le> op1" "anchor < p" "p - anchor \<le> 270549126" "p \<le> in_len"
      using p2 res n True ap a0 m small by simp_all
    with literal_phase_emit_run [OF er _ _ a0 o0 tk ag1 _ icap ocap _ old]
    show ?thesis
      by (auto simp: t_def r_def)
  next
    case False
    then have "om1 = om(op := word_of_int token)" "op1 = op + 1"
      using h1 by auto
    then have "im op = word_of_int t"
      using ag1 o0 False by (simp add: t_def r_def)
    then have "uint (im op) = t"
      using tf by (simp add: uint_byte)
    moreover have "\<not> 32 \<le> t"
      using tf False by (simp add: r_def)
    then have "literal_phase im icap n omd ocap in_len t (op + 1) anchor = Some (Continue omd op1 p)"
      using False \<open>op1 = op + 1\<close> by (simp add: literal_phase_def)
    ultimately show ?thesis
      using old False by auto
  qed
  then obtain omd1 where tok: "uint (im op) = t"
    and t1: "\<forall>a. 0 \<le> a \<and> a < p \<longrightarrow> omd1 a = inm a"
    and lp: "literal_phase im icap n omd ocap in_len t (op + 1) anchor = Some (Continue omd1 op1 p)"
    by blast
  have bl: "best_len \<le> 270549138"
    using m small by simp
  have o1: "0 \<le> op1"
    using o0 p1 by simp
  from match_phase_emit [OF h2 res(1) mo len_def bl o1 tf(5,6) _ _ icap ocap t1, where im = im]
    ag n res(2)
  obtain omd2 where t2: "\<forall>a. 0 \<le> a \<and> a < p + best_len \<longrightarrow> omd2 a = inm a"
    and mp: "match_phase im icap omd1 ocap in_len t op1 p = Some (Continue omd2 op' (p + best_len))"
    by auto
  have "op < n" "in_bounds icap op 1"
    using p1 p2 res n o0 icap by (simp_all add: in_bounds_def EXCESS_def)
  then have "Decompress_loop im icap n ocap in_len omd op anchor
      = Decompress_loop im icap n ocap in_len omd2 op' (p + best_len)"
    using tok lp mp by (subst Decompress_loop.simps) simp
  with t2 show ?thesis
    by blast
qed

lemma token_literal:
  assumes h1: "(if anchor \<noteq> p then emit_run inm om op anchor p token
        else (om(op := word_of_int token), op + 1)) = (om1, op1)"
    and tk: "0 \<le> token" "token < 32"
    and a0: "0 \<le> anchor" and ap: "anchor \<le> p" and o0: "0 \<le> op" and pl: "p \<le> in_len"
    and small: "in_len \<le> 270549126"
    and ag: "\<forall>a. 0 \<le> a \<and> a < op1 \<longrightarrow> im a = om1 a"
    and n: "op1 \<le> n" and icap: "n + EXCESS \<le> icap" and ocap: "in_len + EXCESS \<le> ocap"
    and old: "\<forall>a. 0 \<le> a \<and> a < anchor \<longrightarrow> omd a = inm a"
  shows "uint (im op) = push_bit 5 (if anchor \<noteq> p then min (p - anchor) 7 else 0) + token
    \<and> (\<exists>omd1. (\<forall>a. 0 \<le> a \<and> a < p \<longrightarrow> omd1 a = inm a)
          \<and> literal_phase im icap n omd ocap in_len (uint (im op)) (op + 1) anchor
              = Some (if anchor \<noteq> p \<and> n \<le> op1 then Stop_end omd1 op1 p
                      else Continue omd1 op1 p))"
proof (cases "anchor \<noteq> p")
  case True
  then have er: "emit_run inm om op anchor p token = (om1, op1)"
    using h1 by simp
  have "anchor < p" "p - anchor \<le> 270549126"
    using True ap a0 pl small by simp_all
  from literal_phase_emit_run [OF er this a0 o0 tk ag n icap ocap pl old]
  obtain omd1 where "uint (im op) = push_bit 5 (min (p - anchor) 7) + token"
    and "\<forall>a. 0 \<le> a \<and> a < p \<longrightarrow> omd1 a = inm a"
    and "literal_phase im icap n omd ocap in_len (uint (im op)) (op + 1) anchor
        = Some (if n \<le> op1 then Stop_end omd1 op1 p else Continue omd1 op1 p)"
    by blast
  then show ?thesis
    using True by (intro conjI exI [where x = omd1]) simp_all
next
  case False
  then have o1: "om1 = om(op := word_of_int token)" "op1 = op + 1"
    using h1 by auto
  then have "im op = word_of_int token"
    using ag o0 by simp
  then have t: "uint (im op) = token"
    using tk by (simp add: uint_byte)
  moreover have "literal_phase im icap n omd ocap in_len token (op + 1) anchor
      = Some (Continue omd op1 p)"
    using False o1 tk by (simp add: literal_phase_def)
  ultimately show ?thesis
    using old False by auto
qed

text \<open>
  A stream cut inside a token. The decoder, arrived at the token, ends in the error
  result, unless the cut is right behind the token's literals: then it returns them.
\<close>

lemma Decompress_loop_cut_token:
  assumes em: "emit_match inm om op anchor p best_len dist = (om', op')"
    and mo: "match_ok inm in_len p dist best_len"
    and a0: "0 \<le> anchor" and ap: "anchor \<le> p" and o0: "0 \<le> op"
    and small: "in_len \<le> 270549126"
    and cut: "op < n'" "n' < op'"
    and ag: "\<forall>a. 0 \<le> a \<and> a < n' \<longrightarrow> im a = om' a"
    and icap: "n' + EXCESS \<le> icap" and ocap: "in_len + EXCESS \<le> ocap"
    and old: "\<forall>a. 0 \<le> a \<and> a < anchor \<longrightarrow> omd a = inm a"
    and res: "Decompress_loop im icap n' ocap in_len omd op anchor = Some (m, omd')"
  shows "m = - 1 \<or> (m = p \<and> (\<forall>a. 0 \<le> a \<and> a < p \<longrightarrow> omd' a = inm a))"
proof -
  define len where "len = best_len - MIN_MATCH"
  define token where "token = (drop_bit 12 dist AND 16) + min len 15"
  define r where "r = (if anchor \<noteq> p then min (p - anchor) 7 else 0)"
  define t where "t = push_bit 5 r + token"
  have m: "1 \<le> dist" "dist < 131072" "dist \<le> p" "4 \<le> best_len" "p + best_len \<le> in_len"
    using mo by (simp_all add: match_ok_def MIN_MATCH_def WINDOW_SIZE_def WINDOW_BITS_def)
  have len0: "0 \<le> len"
    using m by (simp add: len_def MIN_MATCH_def)
  have r: "0 \<le> r" "r \<le> 7"
    using ap by (simp_all add: r_def)
  have d0: "0 \<le> dist"
    using m by simp
  from token_fields [OF r d0 m(2) len0]
  have tf: "t AND 15 = min len 15" "push_bit 12 (t AND 16) + dist mod 65536 = dist"
    by (simp_all add: t_def token_def)
  from token_range [OF d0 m(2) len0]
  have tk: "0 \<le> token" "token < 32"
    by (simp_all add: token_def)
  have pl: "p \<le> in_len" and bl: "best_len \<le> 270549138"
    using m small by simp_all
  from emit_match_parts [OF em ap] obtain om1 op1 om2 op2 where
    h1: "(if anchor \<noteq> p then emit_run inm om op anchor p token
        else (om(op := word_of_int token), op + 1)) = (om1, op1)"
    and h2: "(if 15 \<le> len then EncodeMod om1 op1 (word_of_int (len - 15)) else (om1, op1))
        = (om2, op2)"
    and res': "om' = UnalignedStore16 om2 op2 (word_of_int dist)" "op' = op2 + 2"
    and ord: "op < op1" "op1 \<le> op2" and fr: "\<forall>a<op1. om' a = om1 a"
    unfolding token_def len_def by blast
  have o1: "0 \<le> op1"
    using o0 ord by simp
  have agB: "\<forall>a. 0 \<le> a \<and> a < op1 \<longrightarrow> om' a = om1 a"
    using fr by simp
  have nB: "op1 \<le> op'" "\<not> op' \<le> op1"
    using ord res' by simp_all
  from token_literal [OF h1 tk a0 ap o0 pl small agB nB(1) order_refl ocap old] nB(2)
  obtain ob1 where tokB: "uint (om' op) = t"
    and tb1: "\<forall>a. 0 \<le> a \<and> a < p \<longrightarrow> ob1 a = inm a"
    and litB: "literal_phase om' (op' + EXCESS) op' omd ocap in_len t (op + 1) anchor
        = Some (Continue ob1 op1 p)"
    by (auto simp: t_def r_def)
  have agB2: "\<forall>a. 0 \<le> a \<and> a < op2 + 2 \<longrightarrow> om' a = om' a"
    by simp
  from match_phase_emit [OF h2 res'(1) mo len_def bl o1 tf agB2 _ order_refl ocap tb1] res'(2)
  obtain ob2 where matB: "match_phase om' (op' + EXCESS) ob1 ocap in_len t op1 p
      = Some (Continue ob2 op' (p + best_len))"
    by auto
  have tok: "uint (im op) = t"
    using ag cut o0 tokB by simp
  have lt: "op < n'"
    using cut by simp
  show ?thesis
  proof (cases "n' < op1")
    case True
    from res lt show ?thesis
    proof (cases rule: Decompress_loop_cases)
      case err
      then show ?thesis
        by simp
    next
      case (stop oa1)
      from literal_phase_agree [OF stop [unfolded tok] litB ag cut(2)] cut True show ?thesis
        by auto
    next
      case (cont oa1 ip1 op1' oa2 ip2 op2')
      from literal_phase_agree [OF cont(1) [unfolded tok] litB ag cut(2)] cut True show ?thesis
        by auto
    qed
  next
    case False
    then have agA: "\<forall>a. 0 \<le> a \<and> a < op1 \<longrightarrow> im a = om1 a"
      using ag fr by simp
    have nA: "op1 \<le> n'"
      using False by simp
    from token_literal [OF h1 tk a0 ap o0 pl small agA nA icap ocap old]
    obtain oa1 where ta1: "\<forall>a. 0 \<le> a \<and> a < p \<longrightarrow> oa1 a = inm a"
      and litA: "literal_phase im icap n' omd ocap in_len t (op + 1) anchor
          = Some (if anchor \<noteq> p \<and> n' \<le> op1 then Stop_end oa1 op1 p else Continue oa1 op1 p)"
      using tok by auto
    have ib: "in_bounds icap op 1"
      using res lt by (subst (asm) Decompress_loop.simps) (auto split: if_splits)
    show ?thesis
    proof (cases "anchor \<noteq> p \<and> n' \<le> op1")
      case True
      then have "Decompress_loop im icap n' ocap in_len omd op anchor = Some (p, oa1)"
        using lt ib tok litA nA by (subst Decompress_loop.simps) simp
      then show ?thesis
        using res ta1 by simp
    next
      case c: False
      then have litA': "literal_phase im icap n' omd ocap in_len t (op + 1) anchor
          = Some (Continue oa1 op1 p)"
        using litA by simp
      from res lt show ?thesis
      proof (cases rule: Decompress_loop_cases)
        case err
        then show ?thesis
          by simp
      next
        case (stop oa)
        then show ?thesis
          using litA' tok by simp
      next
        case (cont oa ip1 op1' oa2 ip2 op2')
        then have eq: "oa = oa1" "ip1 = op1" "op1' = p"
          using litA' tok by simp_all
        from match_phase_agree [OF cont(2) [unfolded tok eq] matB ag]
        consider "n' < ip2" | "ip2 = op'" "ip2 \<le> n'"
          by auto
        then show ?thesis
        proof cases
          case 1
          then show ?thesis
            using cont(3) Decompress_loop_past [of n' ip2 im icap ocap in_len oa2 op2'] by simp
        next
          case 2
          then show ?thesis
            using cut by simp
        qed
      qed
    qed
  qed
qed

text \<open>
  The two main loops keep \<open>decoder_at\<close>, and the block after them turns it into the round
  trip. The bound on \<open>in_len\<close> keeps every literal run and every match short enough for its
  length extension to fit the four bytes that \<open>DecodeMod\<close> reads.
\<close>

lemma decoder_at_init: "decoder_at inm in_len om 0 0"
  unfolding decoder_at_def by auto

lemma decoder_at_match:
  assumes at: "decoder_at inm in_len om op anchor"
    and em: "emit_match inm om op anchor p best_len dist = (om', op')"
    and mo: "match_ok inm in_len p dist best_len"
    and a0: "0 \<le> anchor" and ap: "anchor \<le> p" and o0: "0 \<le> op"
    and small: "in_len \<le> 270549126"
  shows "decoder_at inm in_len om' op' (p + best_len)"
  unfolding decoder_at_def
proof (intro allI impI)
  fix im :: mem and icap n ocap :: int and omd :: mem
  assume A: "(\<forall>a. 0 \<le> a \<and> a < op' \<longrightarrow> im a = om' a) \<and> op' \<le> n \<and> n + EXCESS \<le> icap
      \<and> in_len + EXCESS \<le> ocap"
  from emit_match_props [OF em ap] have fr: "op < op'" "\<forall>a<op. om' a = om a"
    by simp_all
  have "(\<forall>a. 0 \<le> a \<and> a < op \<longrightarrow> im a = om a) \<and> op \<le> n \<and> n + EXCESS \<le> icap
      \<and> in_len + EXCESS \<le> ocap"
    using A fr by simp
  with at obtain omd1 where o1: "\<forall>a. 0 \<le> a \<and> a < anchor \<longrightarrow> omd1 a = inm a"
    and e1: "Decompress_loop im icap n ocap in_len omd 0 0
        = Decompress_loop im icap n ocap in_len omd1 op anchor"
    unfolding decoder_at_def by blast
  from A have ag: "\<forall>a. 0 \<le> a \<and> a < op' \<longrightarrow> im a = om' a" and n: "op' \<le> n"
    and icap: "n + EXCESS \<le> icap" and ocap: "in_len + EXCESS \<le> ocap"
    by simp_all
  from Decompress_loop_token [OF em mo a0 ap o0 small ag n icap ocap o1]
  obtain omd2 where "\<forall>a. 0 \<le> a \<and> a < p + best_len \<longrightarrow> omd2 a = inm a"
    and "Decompress_loop im icap n ocap in_len omd1 op anchor
        = Decompress_loop im icap n ocap in_len omd2 op' (p + best_len)"
    by blast
  with e1 show "\<exists>omd'. (\<forall>a. 0 \<le> a \<and> a < p + best_len \<longrightarrow> omd' a = inm a)
      \<and> Decompress_loop im icap n ocap in_len omd 0 0
          = Decompress_loop im icap n ocap in_len omd' op' (p + best_len)"
    by auto
qed

lemma decoder_at_last:
  assumes at: "decoder_at inm in_len om op anchor"
    and el: "emit_last inm om op anchor in_len = (omc, n)"
    and a0: "0 \<le> anchor" and ap: "anchor \<le> in_len" and o0: "0 \<le> op"
    and small: "in_len \<le> 270549126"
  shows "round_trips inm in_len n omc"
  unfolding round_trips_def
proof (intro allI impI)
  fix im :: mem and icap :: int and omd :: mem and ocap :: int
  assume A: "(\<forall>a. 0 \<le> a \<and> a < n \<longrightarrow> im a = omc a) \<and> n + EXCESS \<le> icap
      \<and> in_len + EXCESS \<le> ocap"
  then have ag: "\<forall>a. 0 \<le> a \<and> a < n \<longrightarrow> im a = omc a" and icap: "n + EXCESS \<le> icap"
    and ocap: "in_len + EXCESS \<le> ocap"
    by simp_all
  from emit_last_props [OF el ap] have fr: "op \<le> n" "\<forall>a<op. omc a = om a"
    by simp_all
  have "(\<forall>a. 0 \<le> a \<and> a < op \<longrightarrow> im a = om a) \<and> op \<le> n \<and> n + EXCESS \<le> icap
      \<and> in_len + EXCESS \<le> ocap"
    using A fr by simp
  with at obtain omd1 where o1: "\<forall>a. 0 \<le> a \<and> a < anchor \<longrightarrow> omd1 a = inm a"
    and e1: "Decompress_loop im icap n ocap in_len omd 0 0
        = Decompress_loop im icap n ocap in_len omd1 op anchor"
    unfolding decoder_at_def by blast
  show "\<exists>omd'. Decompress im icap n omd ocap in_len = Some (in_len, omd')
      \<and> (\<forall>a. 0 \<le> a \<and> a < in_len \<longrightarrow> omd' a = inm a)"
  proof (cases "anchor = in_len")
    case True
    then have "n = op"
      using el by (simp add: emit_last_def)
    then have "Decompress_loop im icap n ocap in_len omd1 op anchor = Some (in_len, omd1)"
      using True by (subst Decompress_loop.simps) simp
    then show ?thesis
      using e1 o1 True by (auto simp: Decompress_def)
  next
    case False
    then have er: "emit_run inm om op anchor in_len 0 = (omc, n)"
      using el by (simp add: emit_last_def)
    have lt: "anchor < in_len" "in_len - anchor \<le> 270549126"
      using False ap a0 small by simp_all
    from emit_run_props [OF er ap] have on: "op < n"
      by simp
    from literal_phase_emit_run [OF er lt a0 o0 _ _ ag order_refl icap ocap order_refl o1]
    obtain omd2 where o2: "\<forall>a. 0 \<le> a \<and> a < in_len \<longrightarrow> omd2 a = inm a"
      and lp: "literal_phase im icap n omd1 ocap in_len (uint (im op)) (op + 1) anchor
          = Some (Stop_end omd2 n in_len)"
      by auto
    have "in_bounds icap op 1"
      using o0 on icap by (simp add: in_bounds_def EXCESS_def)
    then have "Decompress_loop im icap n ocap in_len omd1 op anchor = Some (in_len, omd2)"
      using on lp by (subst Decompress_loop.simps) simp
    then show ?thesis
      using e1 o2 by (auto simp: Decompress_def)
  qed
qed

lemma Decompress_loop_cut_last:
  assumes er: "emit_run inm om op anchor in_len 0 = (omc, n)"
    and run: "anchor < in_len" and a0: "0 \<le> anchor" and o0: "0 \<le> op"
    and small: "in_len \<le> 270549126"
    and cut: "op < n'" "n' < n"
    and ag: "\<forall>a. 0 \<le> a \<and> a < n' \<longrightarrow> im a = omc a"
    and res: "Decompress_loop im icap n' ocap in_len omd op anchor = Some (m, omd')"
  shows "m = - 1"
proof -
  have r: "in_len - anchor \<le> 270549126"
    using a0 small by simp
  have "\<forall>a. 0 \<le> a \<and> a < n \<longrightarrow> omc a = omc a" "\<forall>a. 0 \<le> a \<and> a < anchor \<longrightarrow> inm a = inm a"
    by simp_all
  from literal_phase_emit_run [OF er run r a0 o0 _ _ this(1) order_refl order_refl order_refl
      order_refl this(2)]
  obtain ob1 where tokB: "uint (omc op) = push_bit 5 (min (in_len - anchor) 7) + 0"
    and litB: "literal_phase omc (n + EXCESS) n inm (in_len + EXCESS) in_len (uint (omc op))
        (op + 1) anchor = Some (Stop_end ob1 n in_len)"
    by auto
  have tok: "im op = omc op"
    using ag cut o0 by simp
  from res cut(1) show ?thesis
  proof (cases rule: Decompress_loop_cases)
    case err
    then show ?thesis .
  next
    case (stop oa1)
    from literal_phase_agree [OF stop [unfolded tok] litB ag cut(2)] cut show ?thesis
      by auto
  next
    case (cont oa1 ip1 op1 oa2 ip2 op2)
    from literal_phase_agree [OF cont(1) [unfolded tok] litB ag cut(2)] cut show ?thesis
      by auto
  qed
qed

lemma decoder_cut_init: "decoder_cut inm in_len om 0 0"
  unfolding decoder_cut_def by auto

lemma decoder_at_end:
  assumes at: "decoder_at inm in_len om op anchor"
    and ag: "\<forall>a. 0 \<le> a \<and> a < op \<longrightarrow> im a = om a"
    and icap: "op + EXCESS \<le> icap" and ocap: "in_len + EXCESS \<le> ocap"
    and res: "Decompress_loop im icap op ocap in_len omd 0 0 = Some (m, omd')"
  shows "m = anchor \<and> (\<forall>a. 0 \<le> a \<and> a < anchor \<longrightarrow> omd' a = inm a)"
proof -
  from at [unfolded decoder_at_def, THEN spec [where x = im], THEN spec [where x = icap],
      THEN spec [where x = op], THEN spec [where x = ocap], THEN spec [where x = omd]]
    ag icap ocap
  obtain omd1 where o1: "\<forall>a. 0 \<le> a \<and> a < anchor \<longrightarrow> omd1 a = inm a"
    and e1: "Decompress_loop im icap op ocap in_len omd 0 0
        = Decompress_loop im icap op ocap in_len omd1 op anchor"
    by auto
  have "Decompress_loop im icap op ocap in_len omd1 op anchor = Some (anchor, omd1)"
    by (subst Decompress_loop.simps) simp
  then show ?thesis
    using e1 res o1 by simp
qed

lemma decoder_cut_match:
  assumes dc: "decoder_cut inm in_len om op anchor"
    and at: "decoder_at inm in_len om op anchor"
    and em: "emit_match inm om op anchor p best_len dist = (om', op')"
    and mo: "match_ok inm in_len p dist best_len"
    and a0: "0 \<le> anchor" and ap: "anchor \<le> p" and o0: "0 \<le> op"
    and small: "in_len \<le> 270549126"
  shows "decoder_cut inm in_len om' op' (p + best_len)"
  unfolding decoder_cut_def
proof (intro allI impI)
  fix im :: mem and icap n ocap :: int and omd :: mem and m :: int and omd' :: mem
  assume A: "0 \<le> n \<and> n < op' \<and> (\<forall>a. 0 \<le> a \<and> a < n \<longrightarrow> im a = om' a) \<and> n + EXCESS \<le> icap
      \<and> in_len + EXCESS \<le> ocap
      \<and> Decompress_loop im icap n ocap in_len omd 0 0 = Some (m, omd')"
  then have n: "0 \<le> n" "n < op'" and ag: "\<forall>a. 0 \<le> a \<and> a < n \<longrightarrow> im a = om' a"
    and icap: "n + EXCESS \<le> icap" and ocap: "in_len + EXCESS \<le> ocap"
    and res: "Decompress_loop im icap n ocap in_len omd 0 0 = Some (m, omd')"
    by simp_all
  from emit_match_props [OF em ap] have fr: "op < op'" "\<forall>a<op. om' a = om a"
    by simp_all
  have bl: "0 \<le> best_len"
    using mo by (simp add: match_ok_def MIN_MATCH_def)
  show "m = - 1 \<or> (m \<le> p + best_len \<and> (\<forall>a. 0 \<le> a \<and> a < m \<longrightarrow> omd' a = inm a))"
  proof (cases "n < op")
    case True
    then have "\<forall>a. 0 \<le> a \<and> a < n \<longrightarrow> im a = om a"
      using ag fr by simp
    with dc [unfolded decoder_cut_def, THEN spec [where x = im], THEN spec [where x = icap],
        THEN spec [where x = n], THEN spec [where x = ocap], THEN spec [where x = omd],
        THEN spec [where x = m], THEN spec [where x = omd']] n True icap ocap res
    have "m = - 1 \<or> (m \<le> anchor \<and> (\<forall>a. 0 \<le> a \<and> a < m \<longrightarrow> omd' a = inm a))"
      by simp
    then show ?thesis
      using ap bl by auto
  next
    case False
    then have ago: "\<forall>a. 0 \<le> a \<and> a < op \<longrightarrow> im a = om a"
      using ag fr by simp
    show ?thesis
    proof (cases "n = op")
      case True
      from decoder_at_end [OF at ago _ ocap] res icap True show ?thesis
        using ap bl by auto
    next
      case ne: False
      then have cut: "op < n"
        using False by simp
      from at [unfolded decoder_at_def, THEN spec [where x = im], THEN spec [where x = icap],
          THEN spec [where x = n], THEN spec [where x = ocap], THEN spec [where x = omd]]
        ago cut icap ocap
      obtain omd1 where o1: "\<forall>a. 0 \<le> a \<and> a < anchor \<longrightarrow> omd1 a = inm a"
        and e1: "Decompress_loop im icap n ocap in_len omd 0 0
            = Decompress_loop im icap n ocap in_len omd1 op anchor"
        by auto
      from Decompress_loop_cut_token [OF em mo a0 ap o0 small cut n(2) ag icap ocap o1
          res [unfolded e1]]
      show ?thesis
        using bl by auto
    qed
  qed
qed

lemma decoder_cut_last:
  assumes dc: "decoder_cut inm in_len om op anchor"
    and at: "decoder_at inm in_len om op anchor"
    and el: "emit_last inm om op anchor in_len = (omc, n)"
    and a0: "0 \<le> anchor" and ap: "anchor \<le> in_len" and o0: "0 \<le> op"
    and small: "in_len \<le> 270549126"
  shows "decoder_cut inm in_len omc n in_len"
  unfolding decoder_cut_def
proof (intro allI impI)
  fix im :: mem and icap n' ocap :: int and omd :: mem and m :: int and omd' :: mem
  assume A: "0 \<le> n' \<and> n' < n \<and> (\<forall>a. 0 \<le> a \<and> a < n' \<longrightarrow> im a = omc a) \<and> n' + EXCESS \<le> icap
      \<and> in_len + EXCESS \<le> ocap
      \<and> Decompress_loop im icap n' ocap in_len omd 0 0 = Some (m, omd')"
  then have n: "0 \<le> n'" "n' < n" and ag: "\<forall>a. 0 \<le> a \<and> a < n' \<longrightarrow> im a = omc a"
    and icap: "n' + EXCESS \<le> icap" and ocap: "in_len + EXCESS \<le> ocap"
    and res: "Decompress_loop im icap n' ocap in_len omd 0 0 = Some (m, omd')"
    by simp_all
  from emit_last_props [OF el ap] have fr: "op \<le> n" "\<forall>a<op. omc a = om a"
    by simp_all
  show "m = - 1 \<or> (m \<le> in_len \<and> (\<forall>a. 0 \<le> a \<and> a < m \<longrightarrow> omd' a = inm a))"
  proof (cases "n' < op")
    case True
    then have "\<forall>a. 0 \<le> a \<and> a < n' \<longrightarrow> im a = om a"
      using ag fr by simp
    with dc [unfolded decoder_cut_def, THEN spec [where x = im], THEN spec [where x = icap],
        THEN spec [where x = n'], THEN spec [where x = ocap], THEN spec [where x = omd],
        THEN spec [where x = m], THEN spec [where x = omd']] n True icap ocap res
    have "m = - 1 \<or> (m \<le> anchor \<and> (\<forall>a. 0 \<le> a \<and> a < m \<longrightarrow> omd' a = inm a))"
      by simp
    then show ?thesis
      using ap by auto
  next
    case False
    then have ago: "\<forall>a. 0 \<le> a \<and> a < op \<longrightarrow> im a = om a"
      using ag fr by simp
    show ?thesis
    proof (cases "n' = op")
      case True
      from decoder_at_end [OF at ago _ ocap] res icap True show ?thesis
        using ap by auto
    next
      case ne: False
      then have cut: "op < n'"
        using False by simp
      then have "op \<noteq> n"
        using n by simp
      then have run: "anchor \<noteq> in_len"
        using el by (auto simp: emit_last_def)
      then have er: "emit_run inm om op anchor in_len 0 = (omc, n)" and lt: "anchor < in_len"
        using el ap by (simp_all add: emit_last_def)
      from at [unfolded decoder_at_def, THEN spec [where x = im], THEN spec [where x = icap],
          THEN spec [where x = n'], THEN spec [where x = ocap], THEN spec [where x = omd]]
        ago cut icap ocap
      obtain omd1 where e1: "Decompress_loop im icap n' ocap in_len omd 0 0
            = Decompress_loop im icap n' ocap in_len omd1 op anchor"
        by auto
      from Decompress_loop_cut_last [OF er lt a0 o0 small cut n(2) ag res [unfolded e1]]
      show ?thesis
        by simp
    qed
  qed
qed

lemma CompressFast_loop_decodes:
  assumes small: "in_len \<le> 270549126"
    and inv: "table_ok ht p \<and> 0 \<le> anchor \<and> anchor \<le> p \<and> p \<le> in_len \<and> 0 \<le> op
      \<and> decoder_at inm in_len om op anchor
      \<and> decoder_cut inm in_len om op anchor"
  shows "case CompressFast_loop rhs_first inm in_len ht om op anchor p refs of
           (ht', om', op', anchor', p', refs') \<Rightarrow>
             (table_ok ht' p' \<and> 0 \<le> anchor' \<and> anchor' \<le> p' \<and> p' \<le> in_len \<and> 0 \<le> op'
               \<and> decoder_at inm in_len om' op' anchor'
      \<and> decoder_cut inm in_len om' op' anchor')
             \<and> in_len \<le> p'"
proof (rule CompressFast_loop_rule [where I = "\<lambda>ht om op anchor p refs.
    table_ok ht p \<and> 0 \<le> anchor \<and> anchor \<le> p \<and> p \<le> in_len \<and> 0 \<le> op
    \<and> decoder_at inm in_len om op anchor
      \<and> decoder_cut inm in_len om op anchor"])
  show "table_ok ht p \<and> 0 \<le> anchor \<and> anchor \<le> p \<and> p \<le> in_len \<and> 0 \<le> op
      \<and> decoder_at inm in_len om op anchor
      \<and> decoder_cut inm in_len om op anchor"
    using inv .
next
  fix ht om op anchor p refs best_len dist ht1
  assume inv: "table_ok ht p \<and> 0 \<le> anchor \<and> anchor \<le> p \<and> p \<le> in_len \<and> 0 \<le> op
      \<and> decoder_at inm in_len om op anchor
      \<and> decoder_cut inm in_len om op anchor"
    and lt: "p < in_len"
    and fp: "fast_probe inm in_len ht anchor p = (best_len, dist, ht1)"
  from fast_probe_props [OF fp] inv lt
  show "table_ok ht1 (p + 1) \<and> 0 \<le> anchor \<and> anchor \<le> p + 1 \<and> p + 1 \<le> in_len \<and> 0 \<le> op
      \<and> decoder_at inm in_len om op anchor
      \<and> decoder_cut inm in_len om op anchor"
    by simp
next
  fix ht om op anchor p refs best_len dist ht1 om' op'
  assume inv: "table_ok ht p \<and> 0 \<le> anchor \<and> anchor \<le> p \<and> p \<le> in_len \<and> 0 \<le> op
      \<and> decoder_at inm in_len om op anchor
      \<and> decoder_cut inm in_len om op anchor"
    and fp: "fast_probe inm in_len ht anchor p = (best_len, dist, ht1)"
    and m: "MIN_MATCH \<le> best_len"
    and em: "emit_match inm om op anchor p best_len dist = (om', op')"
  from fast_probe_props [OF fp] inv m
  have t1: "table_ok ht1 (p + 1)" and mo: "match_ok inm in_len p dist best_len"
    by simp_all
  have "table_ok ht1 (p + best_len)"
    using table_ok_mono [OF t1] m by (simp add: MIN_MATCH_def)
  then have tab: "table_ok (insert_after rhs_first inm
                   (insert_after rhs_first inm (insert_after rhs_first inm ht1 (p + 1)) (p + 2))
                   (p + 3)) (p + best_len)"
    using inv m by (intro table_ok_insert_after) (simp_all add: MIN_MATCH_def)
  have at: "decoder_at inm in_len om' op' (p + best_len)
      \<and> decoder_cut inm in_len om' op' (p + best_len)"
    using decoder_at_match [OF _ em mo _ _ _ small] decoder_cut_match [OF _ _ em mo _ _ _ small] inv
    by simp
  have "op < op'"
    using emit_match_props [OF em] inv by simp
  then show "table_ok (insert_after rhs_first inm
                   (insert_after rhs_first inm (insert_after rhs_first inm ht1 (p + 1)) (p + 2))
                   (p + 3)) (p + best_len)
      \<and> 0 \<le> p + best_len \<and> p + best_len \<le> p + best_len \<and> p + best_len \<le> in_len \<and> 0 \<le> op'
      \<and> decoder_at inm in_len om' op' (p + best_len)
      \<and> decoder_cut inm in_len om' op' (p + best_len)"
    using tab at inv m mo by (simp add: MIN_MATCH_def match_ok_def)
qed

lemma CompressFast_round_trips:
  assumes "0 \<le> in_len" and small: "in_len \<le> 270549126"
    and c: "CompressFast rhs_first inm in_len om ht = (n, omc, ht')"
  shows "round_trips inm in_len n omc \<and> decoder_cut inm in_len omc n in_len"
proof -
  obtain ht1 om1 op anchor p refs where
    l: "CompressFast_loop rhs_first inm in_len (reset ht) om 0 0 0 [] = (ht1, om1, op, anchor, p, refs)"
    by (cases "CompressFast_loop rhs_first inm in_len (reset ht) om 0 0 0 []") auto
  have "table_ok (reset ht) 0 \<and> (0 :: int) \<le> 0 \<and> (0 :: int) \<le> 0 \<and> 0 \<le> in_len \<and> (0 :: int) \<le> 0
      \<and> decoder_at inm in_len om 0 0
      \<and> decoder_cut inm in_len om 0 0"
    using assms(1) by (simp add: table_ok_reset decoder_at_init decoder_cut_init)
  from CompressFast_loop_decodes [OF small this, of rhs_first "[]"] l
  have inv: "0 \<le> anchor" "anchor \<le> p" "p = in_len" "0 \<le> op" "decoder_at inm in_len om1 op anchor"
    "decoder_cut inm in_len om1 op anchor"
    by simp_all
  obtain n0 where el0: "emit_last inm om1 op anchor in_len = (omc, n0)" and n: "n = to_int n0"
    using c l inv(3) by (auto simp: CompressFast_def CompressFast_run_def split: prod.splits)
  have "fst (CompressFast_run rhs_first inm in_len om ht) = n0"
    using l el0 inv(3) by (simp add: CompressFast_run_def)
  with CompressFast_run_size [of rhs_first inm in_len om ht] assms(1) small
  have "0 \<le> n0" "n0 \<le> 2147483647"
    by simp_all
  then have "n = n0"
    using n by (simp add: to_int_id)
  with el0 have el: "emit_last inm om1 op anchor in_len = (omc, n)"
    by simp
  from decoder_at_last [OF inv(5) el inv(1) _ inv(4) small]
    decoder_cut_last [OF inv(6,5) el inv(1) _ inv(4) small] inv show ?thesis
    by simp
qed

lemma Compress_loop_decodes:
  assumes small: "in_len \<le> 270549126"
    and inv: "table_ok ht p \<and> chain_ok prev p \<and> 0 \<le> anchor \<and> anchor \<le> p \<and> p \<le> in_len
      \<and> 0 \<le> op \<and> decoder_at inm in_len om op anchor
      \<and> decoder_cut inm in_len om op anchor"
  shows "case Compress_loop inm in_len level max_chain ht prev om op anchor p refs of
           (ht', prev', om', op', anchor', p', refs') \<Rightarrow>
             (table_ok ht' p' \<and> chain_ok prev' p' \<and> 0 \<le> anchor' \<and> anchor' \<le> p'
               \<and> p' \<le> in_len \<and> 0 \<le> op' \<and> decoder_at inm in_len om' op' anchor'
      \<and> decoder_cut inm in_len om' op' anchor')
             \<and> in_len \<le> p'"
proof (rule Compress_loop_rule [where I = "\<lambda>ht prev om op anchor p refs.
    table_ok ht p \<and> chain_ok prev p \<and> 0 \<le> anchor \<and> anchor \<le> p \<and> p \<le> in_len \<and> 0 \<le> op
    \<and> decoder_at inm in_len om op anchor
      \<and> decoder_cut inm in_len om op anchor"])
  show "table_ok ht p \<and> chain_ok prev p \<and> 0 \<le> anchor \<and> anchor \<le> p \<and> p \<le> in_len \<and> 0 \<le> op
      \<and> decoder_at inm in_len om op anchor
      \<and> decoder_cut inm in_len om op anchor"
    using inv .
next
  fix ht prev om op anchor p refs best_len dist ht' prev'
  assume inv: "table_ok ht p \<and> chain_ok prev p \<and> 0 \<le> anchor \<and> anchor \<le> p \<and> p \<le> in_len
      \<and> 0 \<le> op \<and> decoder_at inm in_len om op anchor
      \<and> decoder_cut inm in_len om op anchor"
    and lt: "p < in_len"
    and ip: "insert_pos inm ht prev p = (ht', prev')"
  from insert_pos_props [OF ip] inv lt
  show "table_ok ht' (p + 1) \<and> chain_ok prev' (p + 1) \<and> 0 \<le> anchor \<and> anchor \<le> p + 1
      \<and> p + 1 \<le> in_len \<and> 0 \<le> op \<and> decoder_at inm in_len om op anchor
      \<and> decoder_cut inm in_len om op anchor"
    by simp
next
  fix ht prev om op anchor p refs best_len dist om' op' ht' prev'
  assume inv: "table_ok ht p \<and> chain_ok prev p \<and> 0 \<le> anchor \<and> anchor \<le> p \<and> p \<le> in_len
      \<and> 0 \<le> op \<and> decoder_at inm in_len om op anchor
      \<and> decoder_cut inm in_len om op anchor"
    and bm: "best_match inm in_len level max_chain ht prev anchor p = (best_len, dist)"
    and m: "MIN_MATCH \<le> best_len"
    and em: "emit_match inm om op anchor p best_len dist = (om', op')"
    and ir: "insert_run inm ht prev p best_len = (ht', prev')"
  from best_match_props [OF bm] inv m have mo: "match_ok inm in_len p dist best_len"
    by simp
  from insert_run_props [OF ir] inv m
  have tab: "table_ok ht' (p + best_len) \<and> chain_ok prev' (p + best_len)"
    by (simp add: MIN_MATCH_def)
  have at: "decoder_at inm in_len om' op' (p + best_len)
      \<and> decoder_cut inm in_len om' op' (p + best_len)"
    using decoder_at_match [OF _ em mo _ _ _ small] decoder_cut_match [OF _ _ em mo _ _ _ small] inv
    by simp
  have "op < op'"
    using emit_match_props [OF em] inv by simp
  then show "table_ok ht' (p + best_len) \<and> chain_ok prev' (p + best_len) \<and> 0 \<le> p + best_len
      \<and> p + best_len \<le> p + best_len \<and> p + best_len \<le> in_len \<and> 0 \<le> op'
      \<and> decoder_at inm in_len om' op' (p + best_len)
      \<and> decoder_cut inm in_len om' op' (p + best_len)"
    using tab at inv m mo by (simp add: MIN_MATCH_def match_ok_def)
qed

lemma Compress_round_trips:
  assumes "0 \<le> in_len" and small: "in_len \<le> 270549126"
    and lv: "1 \<le> level" "level \<le> 9"
    and c: "Compress inm in_len om level ht prev = (n, omc, ht', prev')"
  shows "round_trips inm in_len n omc \<and> decoder_cut inm in_len omc n in_len"
proof -
  define max_chain :: nat where
    "max_chain = (if level < 9 then push_bit (nat level) 1 else push_bit 13 1)"
  obtain ht1 prev1 om1 op anchor p refs where
    l: "Compress_loop inm in_len level max_chain (reset ht) prev om 0 0 0 []
        = (ht1, prev1, om1, op, anchor, p, refs)"
    by (cases "Compress_loop inm in_len level max_chain (reset ht) prev om 0 0 0 []") auto
  have "table_ok (reset ht) 0 \<and> chain_ok prev 0 \<and> (0 :: int) \<le> 0 \<and> (0 :: int) \<le> 0 \<and> 0 \<le> in_len
      \<and> (0 :: int) \<le> 0 \<and> decoder_at inm in_len om 0 0
      \<and> decoder_cut inm in_len om 0 0"
    using assms(1) by (simp add: table_ok_reset chain_ok_0 decoder_at_init decoder_cut_init)
  from Compress_loop_decodes [OF small this, of level max_chain "[]"] l
  have inv: "0 \<le> anchor" "anchor \<le> p" "p = in_len" "0 \<le> op" "decoder_at inm in_len om1 op anchor"
    "decoder_cut inm in_len om1 op anchor"
    by simp_all
  obtain n0 where el0: "emit_last inm om1 op anchor in_len = (omc, n0)" and n: "n = to_int n0"
    using c l inv(3) lv unfolding Compress_def Compress_run_def max_chain_def [symmetric] Let_def
    by (auto split: prod.splits)
  have "fst (Compress_run inm in_len om level ht prev) = n0"
    using l el0 inv(3) lv unfolding Compress_run_def max_chain_def [symmetric] Let_def by simp
  with Compress_run_size [OF lv, of inm in_len om ht prev] assms(1) small
  have "0 \<le> n0" "n0 \<le> 2147483647"
    by simp_all
  then have "n = n0"
    using n by (simp add: to_int_id)
  with el0 have el: "emit_last inm om1 op anchor in_len = (omc, n)"
    by simp
  from decoder_at_last [OF inv(5) el inv(1) _ inv(4) small]
    decoder_cut_last [OF inv(6,5) el inv(1) _ inv(4) small] inv show ?thesis
    by simp
qed

lemma match_len_const:
  "inm = (\<lambda>_. c) \<Longrightarrow> len \<le> lim \<Longrightarrow> match_len inm s p len lim = lim"
proof (induction inm s p len lim rule: match_len.induct)
  case (1 inm s p len lim)
  show ?case
  proof (cases "len < lim")
    case True
    then have "match_len inm s p len lim = match_len inm s p (len + 1) lim"
      using "1.prems"(1) by (subst match_len.simps) simp
    also have "\<dots> = lim"
      using "1.IH" True "1.prems" by simp
    finally show ?thesis .
  next
    case False
    then show ?thesis
      using "1.prems"(2) by (subst match_len.simps) simp
  qed
qed

lemma match_len_zeros: "len \<le> lim \<Longrightarrow> match_len (\<lambda>_. 0) s p len lim = lim"
  by (rule match_len_const [where c = 0]) simp_all

lemma round_trips_truncated:
  assumes rt: "round_trips inm in_len n omc" and dc: "decoder_cut inm in_len omc n in_len"
    and i0: "0 \<le> in_len"
  shows "truncation_shortens inm in_len n omc"
  unfolding truncation_shortens_def
proof (intro allI impI)
  fix k :: int and im :: mem and icap :: int and omd :: mem and ocap :: int
  assume A: "1 \<le> k \<and> k \<le> n \<and> (\<forall>a. 0 \<le> a \<and> a < n - k \<longrightarrow> im a = omc a)
      \<and> n - k + EXCESS \<le> icap \<and> in_len + EXCESS \<le> ocap"
  from rt [unfolded round_trips_def, THEN spec [where x = omc],
      THEN spec [where x = "n + EXCESS"], THEN spec [where x = omd], THEN spec [where x = ocap]] A
  obtain omB where B: "Decompress_loop omc (n + EXCESS) n ocap in_len omd 0 0 = Some (in_len, omB)"
    by (auto simp: Decompress_def)
  from Decompress_loop_safe [where ip = 0 and op = 0 and in_len = "n - k" and icap = icap
      and out_len = in_len and ocap = ocap and im = im and om = omd] A
  obtain m omA where C: "Decompress_loop im icap (n - k) ocap in_len omd 0 0 = Some (m, omA)"
    by auto
  have "m = - 1 \<or> m < in_len"
    using Decompress_loop_prefix [OF C B] A i0 by auto
  moreover have "m = - 1 \<or> 0 \<le> m"
    using Decompress_loop_le [OF _ _ C] i0 by auto
  moreover have "m = - 1 \<or> (\<forall>a. 0 \<le> a \<and> a < m \<longrightarrow> omA a = inm a)"
    using dc [unfolded decoder_cut_def, THEN spec [where x = im], THEN spec [where x = icap],
        THEN spec [where x = "n - k"], THEN spec [where x = ocap], THEN spec [where x = omd],
        THEN spec [where x = m], THEN spec [where x = omA]] A C
    by auto
  ultimately have "m = - 1
      \<or> (0 \<le> m \<and> m < in_len \<and> (\<forall>a. 0 \<le> a \<and> a < m \<longrightarrow> omA a = inm a))"
    by auto
  with C show "\<exists>m omd'. Decompress im icap (n - k) omd ocap in_len = Some (m, omd')
      \<and> (m = - 1
          \<or> (0 \<le> m \<and> m < in_len \<and> (\<forall>a. 0 \<le> a \<and> a < m \<longrightarrow> omd' a = inm a)))"
    by (auto simp: Decompress_def)
qed

text \<open>
  Claim C1, as amended. For every input of at most \<open>270549126\<close> bytes, \<open>CompressFast\<close> (for
  both evaluation orders of \<open>HashTable[Hash32(&in[p])]=p++\<close>) and \<open>Compress\<close> at every level
  from \<open>1\<close> to \<open>9\<close>, whatever the tables and the output buffer held before: \<open>Decompress\<close>,
  called on the compressed bytes with the input's length declared as the output length and
  with the guard regions of \<open>EXCESS\<close> bytes allocated behind both buffers, returns the
  input's length and has rebuilt the input byte by byte. This covers the empty input,
  inputs shorter than \<open>MIN_MATCH\<close>, runs of one byte, incompressible inputs, repeats at any
  distance inside and outside the window, and lengths that are and are not multiples of
  eight.
\<close>

theorem Compress_then_Decompress:
  assumes "0 \<le> in_len" and "in_len \<le> 270549126" and "1 \<le> level" and "level \<le> 9"
  shows "(case CompressFast rhs_first inm in_len om ht of
            (n, omc, ht') \<Rightarrow> round_trips inm in_len n omc)
    \<and> (case Compress inm in_len om level ht prev of
            (n, omc, ht', prev') \<Rightarrow> round_trips inm in_len n omc)"
  using assms CompressFast_round_trips [where in_len = in_len and rhs_first = rhs_first and inm = inm
      and om = om and ht = ht]
    Compress_round_trips [where in_len = in_len and level = level and inm = inm and om = om
      and ht = ht and prev = prev]
  by (auto split: prod.splits)

theorem Compress_then_Decompress_witness:
  "(0 :: int) \<le> 9 \<and> (9 :: int) \<le> 270549126 \<and> (1 :: int) \<le> 5 \<and> (5 :: int) \<le> 9
    \<and> fst (CompressFast True (mem_of [97, 97, 97, 97, 97, 97, 97, 97, 98]) 9 (\<lambda>_. 0) (\<lambda>_. 0)) = 6
    \<and> (\<exists>omd'. Decompress
            (fst (snd (CompressFast True (mem_of [97, 97, 97, 97, 97, 97, 97, 97, 98]) 9
               (\<lambda>_. 0) (\<lambda>_. 0))))
            22 6 (\<lambda>_. 0) 25 9 = Some (9, omd')
          \<and> map omd' [0, 1, 2, 3, 4, 5, 6, 7, 8] = [97, 97, 97, 97, 97, 97, 97, 97, 98])
    \<and> fst (Compress (mem_of [97, 97, 97, 97, 97, 97, 97, 97, 98]) 9 (\<lambda>_. 0) 5 (\<lambda>_. 0) (\<lambda>_. 0)) = 6
    \<and> (\<exists>omd'. Decompress
            (fst (snd (Compress (mem_of [97, 97, 97, 97, 97, 97, 97, 97, 98]) 9 (\<lambda>_. 0) 5
               (\<lambda>_. 0) (\<lambda>_. 0))))
            22 6 (\<lambda>_. 0) 25 9 = Some (9, omd')
          \<and> map omd' [0, 1, 2, 3, 4, 5, 6, 7, 8] = [97, 97, 97, 97, 97, 97, 97, 97, 98])"
proof -
  define inm where "inm = mem_of [97, 97, 97, 97, 97, 97, 97, 97, 98]"
  define cf where "cf = CompressFast True inm 9 (\<lambda>_. 0) (\<lambda>_. 0)"
  define cc where "cc = Compress inm 9 (\<lambda>_. 0) 5 (\<lambda>_. 0) (\<lambda>_. 0)"
  have nf: "fst cf = 6"
    unfolding cf_def inm_def by (simp add: ulz_loops ulz_defs mem_of_def)
  have nc: "fst cc = 6"
    unfolding cc_def inm_def by (simp add: ulz_loops ulz_defs mem_of_def)
  from Compress_then_Decompress [where in_len = 9 and level = 5 and rhs_first = True and inm = inm
      and om = "\<lambda>_. 0" and ht = "\<lambda>_. 0" and prev = "\<lambda>_. 0"]
  have rf: "round_trips inm 9 6 (fst (snd cf))" and rc: "round_trips inm 9 6 (fst (snd cc))"
    using nf nc by (simp_all add: cf_def cc_def case_prod_beta)
  have bytes: "map omd' [0, 1, 2, 3, 4, 5, 6, 7, 8] = [97, 97, 97, 97, 97, 97, 97, 97, 98]"
    if "\<forall>a. 0 \<le> a \<and> a < 9 \<longrightarrow> omd' a = inm a" for omd'
    using that by (simp add: inm_def mem_of_def)
  from rf [unfolded round_trips_def, THEN spec [where x = "fst (snd cf)"],
      THEN spec [where x = 22], THEN spec [where x = "\<lambda>_. 0"], THEN spec [where x = 25]]
  have df: "\<exists>omd'. Decompress (fst (snd cf)) 22 6 (\<lambda>_. 0) 25 9 = Some (9, omd')
      \<and> map omd' [0, 1, 2, 3, 4, 5, 6, 7, 8] = [97, 97, 97, 97, 97, 97, 97, 97, 98]"
    using bytes by (auto simp: EXCESS_def)
  from rc [unfolded round_trips_def, THEN spec [where x = "fst (snd cc)"],
      THEN spec [where x = 22], THEN spec [where x = "\<lambda>_. 0"], THEN spec [where x = 25]]
  have dc: "\<exists>omd'. Decompress (fst (snd cc)) 22 6 (\<lambda>_. 0) 25 9 = Some (9, omd')
      \<and> map omd' [0, 1, 2, 3, 4, 5, 6, 7, 8] = [97, 97, 97, 97, 97, 97, 97, 97, 98]"
    using bytes by (auto simp: EXCESS_def)
  show ?thesis
    using nf nc df dc unfolding cf_def cc_def inm_def by simp
qed

text \<open>
  The claim as it stands fails on \<open>270549140\<close> zero bytes. \<open>CompressFast\<close> emits one literal
  and one match of \<open>270549139\<close> bytes at distance \<open>1\<close>; the length extension of the match is
  \<open>270549120\<close>, for which \<open>EncodeMod\<close> writes five bytes. \<open>DecodeMod\<close> reads four of them,
  so the decoder takes the fifth byte and the first distance byte for the distance, reads
  \<open>256\<close>, and returns the error result.
\<close>

theorem Decompress_fails_on_long_match:
  "fst (CompressFast True (\<lambda>_. 0) 270549140 (\<lambda>_. 0) (\<lambda>_. 0)) = 9
    \<and> map (fst (snd (CompressFast True (\<lambda>_. 0) 270549140 (\<lambda>_. 0) (\<lambda>_. 0)))) [0, 1, 2, 3, 4, 5, 6, 7, 8]
        = [47, 0, 128, 128, 128, 128, 0, 1, 0]
    \<and> map_option fst (Decompress (fst (snd (CompressFast True (\<lambda>_. 0) 270549140 (\<lambda>_. 0) (\<lambda>_. 0))))
        25 9 (\<lambda>_. 0) 270549156 270549140) = Some (- 1)"
  by (simp add: match_len_zeros EncodeMod.simps DecodeMod_from.simps WildCopy_from.simps
      WildCopy_chk_from.simps copy_tail.simps Decompress_loop.simps CompressFast_loop.simps
      ulz_defs word_le_nat_alt word_less_nat_alt)

text \<open>
  Claim C4, as amended. For a stream produced by \<open>CompressFast\<close> or by \<open>Compress\<close> at a
  level from \<open>1\<close> to \<open>9\<close> from an input of at most \<open>270549126\<close> bytes, and every \<open>k\<close> from \<open>1\<close>
  to the length of the stream (so for every \<open>k\<close> in \<open>1..4\<close> that the stream is long enough
  for): \<open>Decompress\<close> on the stream without its last \<open>k\<close> bytes, with the original declared
  output length and the guard regions allocated, never returns the declared length. It
  returns the error result, or it succeeds with fewer bytes than declared, and these are
  the first bytes of the original input.
\<close>

theorem truncated_stream:
  assumes "0 \<le> in_len" and "in_len \<le> 270549126" and "1 \<le> level" and "level \<le> 9"
  shows "(case CompressFast rhs_first inm in_len om ht of
            (n, omc, ht') \<Rightarrow> truncation_shortens inm in_len n omc)
    \<and> (case Compress inm in_len om level ht prev of
            (n, omc, ht', prev') \<Rightarrow> truncation_shortens inm in_len n omc)"
  using assms CompressFast_round_trips [where in_len = in_len and rhs_first = rhs_first and inm = inm
      and om = om and ht = ht]
    Compress_round_trips [where in_len = in_len and level = level and inm = inm and om = om
      and ht = ht and prev = prev]
    round_trips_truncated [where inm = inm and in_len = in_len]
  by (auto split: prod.splits)

theorem truncated_stream_witness:
  "(0 :: int) \<le> 9 \<and> (9 :: int) \<le> 270549126 \<and> (1 :: int) \<le> 5 \<and> (5 :: int) \<le> 9
    \<and> fst (CompressFast True (mem_of [97, 97, 97, 97, 97, 97, 97, 97, 98]) 9 (\<lambda>_. 0) (\<lambda>_. 0)) = 6
    \<and> (1 :: int) \<le> 2 \<and> (2 :: int) \<le> 6 \<and> (6 :: int) - 2 + EXCESS \<le> 20 \<and> (9 :: int) + EXCESS \<le> 25
    \<and> (\<exists>m omd'. Decompress
            (fst (snd (CompressFast True (mem_of [97, 97, 97, 97, 97, 97, 97, 97, 98]) 9
               (\<lambda>_. 0) (\<lambda>_. 0))))
            20 (6 - 2) (\<lambda>_. 0) 25 9 = Some (m, omd')
          \<and> m = 8 \<and> map omd' [0, 1, 2, 3, 4, 5, 6, 7] = [97, 97, 97, 97, 97, 97, 97, 97])"
proof -
  define inm where "inm = mem_of [97, 97, 97, 97, 97, 97, 97, 97, 98]"
  define cf where "cf = CompressFast True inm 9 (\<lambda>_. 0) (\<lambda>_. 0)"
  have nf: "fst cf = 6"
    unfolding cf_def inm_def by (simp add: ulz_loops ulz_defs mem_of_def)
  have ev: "map_option fst (Decompress (fst (snd cf)) 20 (6 - 2) (\<lambda>_. 0) 25 9) = Some 8"
    unfolding cf_def inm_def
    by (simp add: ulz_loops ulz_defs mem_of_def word_le_nat_alt word_less_nat_alt)
  from truncated_stream [where in_len = 9 and level = 5 and rhs_first = True and inm = inm
      and om = "\<lambda>_. 0" and ht = "\<lambda>_. 0" and prev = "\<lambda>_. 0"]
  have "truncation_shortens inm 9 6 (fst (snd cf))"
    using nf by (simp add: cf_def case_prod_beta)
  from this [unfolded truncation_shortens_def, THEN spec [where x = 2],
      THEN spec [where x = "fst (snd cf)"], THEN spec [where x = 20],
      THEN spec [where x = "\<lambda>_. 0"], THEN spec [where x = 25]]
  obtain m omd' where d: "Decompress (fst (snd cf)) 20 (6 - 2) (\<lambda>_. 0) 25 9 = Some (m, omd')"
    and r: "m = - 1 \<or> (0 \<le> m \<and> m < 9 \<and> (\<forall>a. 0 \<le> a \<and> a < m \<longrightarrow> omd' a = inm a))"
    by (auto simp: EXCESS_def)
  have m: "m = 8"
    using ev d by simp
  then have "map omd' [0, 1, 2, 3, 4, 5, 6, 7] = [97, 97, 97, 97, 97, 97, 97, 97]"
    using r by (simp add: inm_def mem_of_def)
  with d m have "\<exists>m omd'. Decompress (fst (snd cf)) 20 (6 - 2) (\<lambda>_. 0) 25 9 = Some (m, omd')
      \<and> m = 8 \<and> map omd' [0, 1, 2, 3, 4, 5, 6, 7] = [97, 97, 97, 97, 97, 97, 97, 97]"
    by (intro exI [where x = m] exI [where x = omd']) simp
  then show ?thesis
    using nf unfolding cf_def inm_def by (simp add: EXCESS_def)
qed

text \<open>
  The claim as it stands fails on the stream of the nine bytes \<open>aaaaaaaab\<close>, which is
  \<open>35, 97, 1, 0, 32, 98\<close>: a literal \<open>a\<close> with a match of seven bytes at distance \<open>1\<close>, and
  the literal \<open>b\<close>. Without its last two bytes the stream ends after the match, at a token
  boundary, and \<open>Decompress\<close> returns \<open>8\<close>, a success, with nine bytes declared.
\<close>

theorem truncated_stream_accepted:
  "fst (CompressFast True (mem_of [97, 97, 97, 97, 97, 97, 97, 97, 98]) 9 (\<lambda>_. 0) (\<lambda>_. 0)) = 6
    \<and> map (fst (snd (CompressFast True (mem_of [97, 97, 97, 97, 97, 97, 97, 97, 98]) 9
          (\<lambda>_. 0) (\<lambda>_. 0)))) [0, 1, 2, 3, 4, 5] = [35, 97, 1, 0, 32, 98]
    \<and> map_option fst (Decompress
          (fst (snd (CompressFast True (mem_of [97, 97, 97, 97, 97, 97, 97, 97, 98]) 9
             (\<lambda>_. 0) (\<lambda>_. 0))))
          20 4 (\<lambda>_. 0) 25 9) = Some 8"
  by (simp add: ulz_loops ulz_defs mem_of_def word_le_nat_alt word_less_nat_alt)

end
